theory Spec2Isabelle
  imports Main "HOL-Library.Sublist" "HOL-Library.AList"
begin

section \<open>Python values and string primitives\<close>

text \<open>
  The program is the class \<open>WGConfig\<close> of \<open>src/wgconfig/__init__.py\<close>.
  A Python \<open>str\<close> is modelled as a HOL \<open>string\<close>, one \<open>char\<close> per code point, which
  covers the code points 0 to 255; a Python \<open>int\<close> is an \<open>int\<close>. The string methods
  below follow the Python built-ins on that range of code points.
\<close>

datatype error = ValueError | KeyError | TypeError | IndexError

text \<open>The values an attribute can hold: \<open>int\<close> or \<open>str\<close>.\<close>

datatype atom = I int | S string

text \<open>
  The values found in a closed section dictionary: a single attribute value, a list of them
  (also the raw lines, a list of \<open>str\<close>), or the \<open>bool\<close> of the disabled flag.
\<close>

datatype pyval = Scalar atom | ListV "atom list" | BoolV bool

text \<open>\<open>str.isspace\<close> on one code point below 256.\<close>

definition isspace :: "char \<Rightarrow> bool" where
  "isspace c \<longleftrightarrow> c \<in> set [CHR 0x09, CHR 0x0A, CHR 0x0B, CHR 0x0C, CHR 0x0D,
     CHR 0x1C, CHR 0x1D, CHR 0x1E, CHR 0x1F, CHR 0x20, CHR 0x85, CHR 0xA0]"

text \<open>The decimal digits, the only characters \<open>int()\<close> converts.\<close>

definition isdecimal_char :: "char \<Rightarrow> bool" where
  "isdecimal_char c \<longleftrightarrow> c \<in> set ''0123456789''"

text \<open>
  \<open>str.isnumeric\<close> on one code point below 256: the decimal digits, the superscripts
  U+00B2, U+00B3, U+00B9 and the fractions U+00BC, U+00BD, U+00BE.
\<close>

definition isnumeric_char :: "char \<Rightarrow> bool" where
  "isnumeric_char c \<longleftrightarrow>
     isdecimal_char c \<or> c \<in> set [CHR 0xB2, CHR 0xB3, CHR 0xB9, CHR 0xBC, CHR 0xBD, CHR 0xBE]"

definition isnumeric :: "string \<Rightarrow> bool" where
  "isnumeric v \<longleftrightarrow> v \<noteq> [] \<and> list_all isnumeric_char v"

definition lstrip :: "string \<Rightarrow> string" where
  "lstrip v = dropWhile isspace v"

definition rstrip :: "string \<Rightarrow> string" where
  "rstrip v = rev (dropWhile isspace (rev v))"

definition strip :: "string \<Rightarrow> string" where
  "strip v = rstrip (lstrip v)"

definition startswith :: "string \<Rightarrow> string \<Rightarrow> bool" where
  "startswith v p \<longleftrightarrow> prefix p v"

text \<open>
  \<open>v.partition(c)\<close> for a separator of one character:
  the part before the first separator, the separator (empty when absent), the rest.
\<close>

definition partition_chr :: "char \<Rightarrow> string \<Rightarrow> string \<times> string \<times> string" where
  "partition_chr c v =
     (case dropWhile (\<lambda>x. x \<noteq> c) v of
        [] \<Rightarrow> (v, [], [])
      | _ # rest \<Rightarrow> (takeWhile (\<lambda>x. x \<noteq> c) v, [c], rest))"

text \<open>\<open>v.split(c)\<close> for a separator of one character; the result is never empty.\<close>

fun split_chr :: "char \<Rightarrow> string \<Rightarrow> string list" where
  "split_chr c [] = [[]]"
| "split_chr c (x # xs) =
     (if x = c then [] # split_chr c xs
      else (case split_chr c xs of
              [] \<Rightarrow> [[x]]
            | w # ws \<Rightarrow> (x # w) # ws))"

text \<open>\<open>sep.join(xs)\<close>.\<close>

fun join :: "string \<Rightarrow> string list \<Rightarrow> string" where
  "join sep [] = []"
| "join sep [x] = x"
| "join sep (x # y # ys) = x @ sep @ join sep (y # ys)"

text \<open>The disable marker, and \<open>line.replace('#! ', '')\<close>: every occurrence is removed,
  scanning from the left.\<close>

definition marker :: string where
  "marker = ''#! ''"

function replace_marker :: "string \<Rightarrow> string" where
  "replace_marker v =
     (if v = [] then []
      else if prefix marker v then replace_marker (drop 3 v)
      else hd v # replace_marker (tl v))"
  by pat_completeness auto
termination
  by (relation "measure length") auto

declare replace_marker.simps [simp del]

text \<open>\<open>str.lower\<close> on one code point below 256.\<close>

definition lower_char :: "char \<Rightarrow> char" where
  "lower_char c =
     (let n = (of_char c :: nat)
      in if (65 \<le> n \<and> n \<le> 90) \<or> (192 \<le> n \<and> n \<le> 222 \<and> n \<noteq> 215)
         then char_of (n + 32) else c)"

definition lower :: "string \<Rightarrow> string" where
  "lower v = map lower_char v"

text \<open>\<open>int(v)\<close> on a string: defined on the decimal digits only
  (surrounding blanks, signs and underscores do not occur where the program calls it).\<close>

definition digit_val :: "char \<Rightarrow> int" where
  "digit_val c = int (of_char c) - 48"

definition int_of_str :: "string \<Rightarrow> error + int" where
  "int_of_str v =
     (if v \<noteq> [] \<and> list_all isdecimal_char v
      then Inr (foldl (\<lambda>acc c. 10 * acc + digit_val c) 0 v)
      else Inl ValueError)"

text \<open>\<open>str(n)\<close> for an \<open>int\<close>: the decimal digits, after a minus sign for a negative number.\<close>

function str_digits :: "int \<Rightarrow> string" where
  "str_digits n =
     (if n < 10 then [char_of (48 + n)]
      else str_digits (n div 10) @ [char_of (48 + n mod 10)])"
  by pat_completeness auto
termination
  by (relation "measure nat") auto

declare str_digits.simps [simp del]

definition str_int :: "int \<Rightarrow> string" where
  "str_int i = (if i < 0 then CHR ''-'' # str_digits (- i) else str_digits i)"

fun str_atom :: "atom \<Rightarrow> string" where
  "str_atom (I i) = str_int i"
| "str_atom (S v) = v"

section \<open>The attribute codec\<close>

text \<open>
  \<open>parse_line\<close> splits one line into attribute name, value list and trailing comment.
  \<open>int()\<close> is reached for every value that \<open>isnumeric\<close> accepts and raises on the ones
  that are not decimal.
\<close>

definition parse_line :: "string \<Rightarrow> error + (string \<times> atom list \<times> string)" where
  "parse_line line =
     (let (attr0, _, value0) = partition_chr CHR ''='' line;
          attr = strip attr0;
          (p0, p1, p2) = partition_chr CHR ''#'' value0;
          value = strip p0;
          comment = p1 @ p2
      in if isnumeric value
         then (case int_of_str value of
                 Inl e \<Rightarrow> Inl e
               | Inr n \<Rightarrow> Inr (attr, [I n], comment))
         else Inr (attr, map (\<lambda>item. S (strip item)) (split_chr CHR '','' value), comment))"

section \<open>The configuration object\<close>

text \<open>
  The object holds the key attribute name, the line buffer and the two cached dictionaries
  \<open>_interface\<close> and \<open>_peers\<close> (\<open>None\<close> while unbuilt). A Python \<open>dict\<close> is an association
  list in insertion order; \<open>AList.update\<close> is the item assignment \<open>d[k] = v\<close>, which keeps the
  place of a key that is already there. A peer key is \<open>None\<close>, an \<open>int\<close> or a \<open>str\<close>.
\<close>

type_synonym section_dict = "(string \<times> pyval) list"
type_synonym pykey = "atom option"

record wgconfig =
  keyattr :: string
  lines :: "string list"
  priv_interface :: "section_dict option"
  priv_peers :: "(pykey \<times> section_dict) list option"

definition SECTION_DISABLED :: string where "SECTION_DISABLED = ''_disabled''"
definition SECTION_FIRSTLINE :: string where "SECTION_FIRSTLINE = ''_index_firstline''"
definition SECTION_LASTLINE :: string where "SECTION_LASTLINE = ''_index_lastline''"
definition SECTION_RAW :: string where "SECTION_RAW = ''_rawdata''"

definition invalidate_data :: "wgconfig \<Rightarrow> wgconfig" where
  "invalidate_data s = s\<lparr>priv_interface := None, priv_peers := None\<rparr>"

subsection \<open>List access as Python does it\<close>

text \<open>
  The position that \<open>xs[i]\<close> addresses: an index below zero is taken from the end of the
  list, and there is no position when the index falls outside the list (\<open>IndexError\<close>).
\<close>

definition norm_index :: "'a list \<Rightarrow> int \<Rightarrow> nat option" where
  "norm_index xs i =
     (if i < 0
      then (if - i \<le> int (length xs) then Some (nat (int (length xs) + i)) else None)
      else (if i < int (length xs) then Some (nat i) else None))"

definition py_get :: "'a list \<Rightarrow> int \<Rightarrow> error + 'a" where
  "py_get xs i = (case norm_index xs i of None \<Rightarrow> Inl IndexError | Some j \<Rightarrow> Inr (xs ! j))"

text \<open>The clamping of a slice bound, and \<open>xs[a:b]\<close>, \<open>xs[a:]\<close>.\<close>

definition slice_bound :: "'a list \<Rightarrow> int \<Rightarrow> nat" where
  "slice_bound xs i =
     (let n = int (length xs)
      in if i < 0 then nat (max 0 (n + i)) else nat (min i n))"

definition py_slice :: "'a list \<Rightarrow> int \<Rightarrow> int \<Rightarrow> 'a list" where
  "py_slice xs a b = drop (slice_bound xs a) (take (slice_bound xs b) xs)"

definition py_slice_from :: "'a list \<Rightarrow> int \<Rightarrow> 'a list" where
  "py_slice_from xs a = drop (slice_bound xs a) xs"

text \<open>\<open>xs.insert(i, x)\<close> clamps the index like a slice bound.\<close>

definition py_insert :: "'a list \<Rightarrow> int \<Rightarrow> 'a \<Rightarrow> 'a list" where
  "py_insert xs i x = take (slice_bound xs i) xs @ [x] @ drop (slice_bound xs i) xs"

text \<open>\<open>xs[i] = x\<close> and \<open>del xs[i]\<close>.\<close>

definition py_set :: "'a list \<Rightarrow> int \<Rightarrow> 'a \<Rightarrow> error + 'a list" where
  "py_set xs i x = (case norm_index xs i of None \<Rightarrow> Inl IndexError | Some j \<Rightarrow> Inr (xs[j := x]))"

definition py_del :: "'a list \<Rightarrow> int \<Rightarrow> error + 'a list" where
  "py_del xs i =
     (case norm_index xs i of
        None \<Rightarrow> Inl IndexError
      | Some j \<Rightarrow> Inr (take j xs @ drop (Suc j) xs))"

text \<open>An operand of \<open>+\<close> or of a comparison with an \<open>int\<close>: only \<open>int\<close> and \<open>bool\<close> work.\<close>

fun as_int :: "pyval \<Rightarrow> error + int" where
  "as_int (Scalar (I n)) = Inr n"
| "as_int (BoolV b) = Inr (if b then 1 else 0)"
| "as_int _ = Inl TypeError"

text \<open>Truth value of a stored value.\<close>

fun truthy :: "pyval \<Rightarrow> bool" where
  "truthy (Scalar (I n)) = (n \<noteq> 0)"
| "truthy (Scalar (S v)) = (v \<noteq> [])"
| "truthy (ListV vs) = (vs \<noteq> [])"
| "truthy (BoolV b) = b"

text \<open>\<open>d[k]\<close> on a dictionary.\<close>

definition dict_get :: "('k \<times> 'v) list \<Rightarrow> 'k \<Rightarrow> error + 'v" where
  "dict_get d k = (case map_of d k of None \<Rightarrow> Inl KeyError | Some v \<Rightarrow> Inr v)"

section \<open>The section indexer\<close>

text \<open>
  \<open>close_section\<close>, the local function of \<open>parse_lines\<close>. The collapsed dictionary is
  stored in the object first and stamped with the raw lines and the disabled flag
  afterwards, on the same dictionary object: \<open>store\<close> writes the dictionary at its place,
  so that a failure of the stamping leaves the unstamped dictionary stored.
\<close>

definition collapse :: "(string \<times> atom list) list \<Rightarrow> section_dict" where
  "collapse section_data =
     map (\<lambda>(k, v). (k, if length v > 1 then ListV v else Scalar (hd v))) section_data"

definition stamp :: "string list \<Rightarrow> section_dict \<Rightarrow> error + section_dict" where
  "stamp ls sd =
     (case dict_get sd SECTION_FIRSTLINE of Inl e \<Rightarrow> Inl e | Inr f \<Rightarrow>
     (case dict_get sd SECTION_LASTLINE of Inl e \<Rightarrow> Inl e | Inr l \<Rightarrow>
     (case as_int l of Inl e \<Rightarrow> Inl e | Inr li \<Rightarrow>
     (case f of
        Scalar (I fi) \<Rightarrow>
          (let sd1 = AList.update SECTION_RAW (ListV (map S (py_slice ls fi (li + 1)))) sd
           in case py_slice ls fi (li + 1) of
                [] \<Rightarrow> Inl IndexError
              | first # _ \<Rightarrow> Inr (AList.update SECTION_DISABLED (BoolV (startswith first marker)) sd1))
      | _ \<Rightarrow> Inl TypeError))))"

definition close_section ::
  "string option \<Rightarrow> (string \<times> atom list) list \<Rightarrow> wgconfig \<Rightarrow> (error + unit) \<times> wgconfig" where
  "close_section section section_data s =
     (if list_ex (\<lambda>(k, v). v = []) section_data then (Inl IndexError, s)
      else
        let sd = collapse section_data
        in case section of
             None \<Rightarrow> (Inr (), s)
           | Some sec \<Rightarrow>
               if sec = ''interface'' then
                 (let s1 = s\<lparr>priv_interface := Some sd\<rparr>
                  in case stamp (lines s) sd of
                       Inl e \<Rightarrow> (Inl e, s1)
                     | Inr sd' \<Rightarrow> (Inr (), s\<lparr>priv_interface := Some sd'\<rparr>))
               else
                 (case map_of sd (keyattr s) of
                    Some (ListV _) \<Rightarrow> (Inl TypeError, s)
                  | Some (BoolV _) \<Rightarrow> (Inl TypeError, s)
                  | other \<Rightarrow>
                      (let peername = (case other of Some (Scalar a) \<Rightarrow> Some a | _ \<Rightarrow> None)
                       in case priv_peers s of
                            None \<Rightarrow> (Inl TypeError, s)
                          | Some ps \<Rightarrow>
                              (let s1 = s\<lparr>priv_peers := Some (AList.update peername sd ps)\<rparr>
                               in case stamp (lines s) sd of
                                    Inl e \<Rightarrow> (Inl e, s1)
                                  | Inr sd' \<Rightarrow>
                                      (Inr (), s\<lparr>priv_peers := Some (AList.update peername sd' ps)\<rparr>)))))"

text \<open>
  The state of the loop of \<open>parse_lines\<close>: the current section name, its uncollapsed
  dictionary, and the cursor \<open>last_empty_line_in_section\<close>.
\<close>

type_synonym loop_state = "string option \<times> (string \<times> atom list) list \<times> int option"

definition parse_step ::
  "int \<Rightarrow> string \<Rightarrow> loop_state \<Rightarrow> wgconfig \<Rightarrow> (error + loop_state) \<times> wgconfig" where
  "parse_step i raw st s =
     (let (section, section_data, last_empty) = st;
          line = strip (replace_marker raw)
      in if line = [] then (Inr (section, section_data, Some i), s)
         else if startswith line ''['' then
           (let sd1 = (case last_empty of
                         None \<Rightarrow> section_data
                       | Some e \<Rightarrow> AList.update SECTION_LASTLINE [I (e - 1)] section_data)
            in case close_section section sd1 s of
                 (Inl err, s') \<Rightarrow> (Inl err, s')
               | (Inr _, s') \<Rightarrow>
                   (let section' = lower (fst (partition_chr CHR '']'' (tl line)));
                        sd2 = (case last_empty of
                                 None \<Rightarrow> [(SECTION_FIRSTLINE, [I i])]
                               | Some e \<Rightarrow> [(SECTION_FIRSTLINE, [I (e + 1)])]);
                        sd3 = AList.update SECTION_LASTLINE [I i] sd2
                    in if section' \<notin> set [''interface'', ''peer'']
                       then (Inl ValueError, s')
                       else (Inr (Some section', sd3, None), s')))
         else if startswith line ''#'' then
           (Inr (section, AList.update SECTION_LASTLINE [I i] section_data, last_empty), s)
         else
           (case parse_line line of
              Inl err \<Rightarrow> (Inl err, s)
            | Inr (attr, value, _) \<Rightarrow>
                (let old = (case map_of section_data attr of None \<Rightarrow> [] | Some v \<Rightarrow> v);
                     sd1 = AList.update attr (old @ value) section_data;
                     sd2 = AList.update SECTION_LASTLINE [I i] sd1
                 in (Inr (section, sd2, last_empty), s))))"

fun parse_loop ::
  "int \<Rightarrow> string list \<Rightarrow> loop_state \<Rightarrow> wgconfig \<Rightarrow> (error + loop_state) \<times> wgconfig" where
  "parse_loop i [] st s = (Inr st, s)"
| "parse_loop i (raw # rest) st s =
     (case parse_step i raw st s of
        (Inl err, s') \<Rightarrow> (Inl err, s')
      | (Inr st', s') \<Rightarrow> parse_loop (i + 1) rest st' s')"

definition parse_lines :: "wgconfig \<Rightarrow> (error + unit) \<times> wgconfig" where
  "parse_lines s =
     (let s0 = s\<lparr>priv_interface := Some [], priv_peers := Some []\<rparr>
      in case parse_loop 0 (lines s0) (None, [], Some (- 1)) s0 of
           (Inl err, s') \<Rightarrow> (Inl err, s')
         | (Inr (section, section_data, _), s') \<Rightarrow> close_section section section_data s')"

text \<open>The properties \<open>interface\<close> and \<open>peers\<close>: parse when the own cache is unbuilt.\<close>

definition interface :: "wgconfig \<Rightarrow> (error + section_dict) \<times> wgconfig" where
  "interface s =
     (case priv_interface s of
        Some d \<Rightarrow> (Inr d, s)
      | None \<Rightarrow>
          (case parse_lines s of
             (Inl err, s') \<Rightarrow> (Inl err, s')
           | (Inr _, s') \<Rightarrow>
               (case priv_interface s' of None \<Rightarrow> (Inl TypeError, s') | Some d \<Rightarrow> (Inr d, s'))))"

definition peers :: "wgconfig \<Rightarrow> (error + (pykey \<times> section_dict) list) \<times> wgconfig" where
  "peers s =
     (case priv_peers s of
        Some ps \<Rightarrow> (Inr ps, s)
      | None \<Rightarrow>
          (case parse_lines s of
             (Inl err, s') \<Rightarrow> (Inl err, s')
           | (Inr _, s') \<Rightarrow>
               (case priv_peers s' of None \<Rightarrow> (Inl TypeError, s') | Some ps \<Rightarrow> (Inr ps, s'))))"

section \<open>File objects\<close>

text \<open>
  A file object is the text it delivers. \<open>readlines\<close> cuts it after every newline and keeps
  the newline; a last line without newline is a line too.
\<close>

fun readlines :: "string \<Rightarrow> string list" where
  "readlines [] = []"
| "readlines (c # cs) =
     (if c = CHR 0x0A then [c] # readlines cs
      else (case readlines cs of
              [] \<Rightarrow> [[c]]
            | l # ls \<Rightarrow> (c # l) # ls))"

definition read_from_fileobj :: "string \<Rightarrow> wgconfig \<Rightarrow> wgconfig" where
  "read_from_fileobj fobj s = invalidate_data (s\<lparr>lines := map rstrip (readlines fobj)\<rparr>)"

definition write_to_fileobj :: "wgconfig \<Rightarrow> string" where
  "write_to_fileobj s = concat (map (\<lambda>line. line @ [CHR 0x0A]) (lines s))"

section \<open>Initialisation and queries\<close>

definition handle_leading_comment :: "string option \<Rightarrow> wgconfig \<Rightarrow> (error + unit) \<times> wgconfig" where
  "handle_leading_comment leading_comment s =
     (case leading_comment of
        None \<Rightarrow> (Inr (), s)
      | Some c \<Rightarrow>
          (case strip c of
             [] \<Rightarrow> (Inl IndexError, s)
           | x # _ \<Rightarrow>
               if x \<noteq> CHR ''#'' then (Inl ValueError, s)
               else (Inr (), s\<lparr>lines := lines s @ [c]\<rparr>)))"

definition initialize_file :: "string option \<Rightarrow> wgconfig \<Rightarrow> (error + unit) \<times> wgconfig" where
  "initialize_file leading_comment s =
     (case handle_leading_comment leading_comment (s\<lparr>lines := []\<rparr>) of
        (Inl err, s1) \<Rightarrow> (Inl err, s1)
      | (Inr _, s1) \<Rightarrow> (Inr (), invalidate_data (s1\<lparr>lines := lines s1 @ [''[Interface]'']\<rparr>)))"

definition get_filtered_dictionary :: "section_dict \<Rightarrow> bool \<Rightarrow> section_dict" where
  "get_filtered_dictionary data include_details =
     (if include_details then data
      else filter (\<lambda>(key, value). \<not> startswith key ''_'') data)"




definition get_peer :: "pykey \<Rightarrow> bool \<Rightarrow> wgconfig \<Rightarrow> (error + section_dict) \<times> wgconfig" where
  "get_peer key include_details s =
     (case peers s of
        (Inl err, s1) \<Rightarrow> (Inl err, s1)
      | (Inr ps, s1) \<Rightarrow>
          (case map_of ps key of
             None \<Rightarrow> (Inl KeyError, s1)
           | Some peerdata \<Rightarrow> (Inr (get_filtered_dictionary peerdata include_details), s1)))"

definition get_peer_enabled :: "pykey \<Rightarrow> wgconfig \<Rightarrow> (error + bool) \<times> wgconfig" where
  "get_peer_enabled key s =
     (case get_peer key True s of
        (Inl err, s1) \<Rightarrow> (Inl err, s1)
      | (Inr peerdata, s1) \<Rightarrow>
          (Inr (\<not> (case map_of peerdata SECTION_DISABLED of None \<Rightarrow> False | Some v \<Rightarrow> truthy v)), s1))"

section \<open>Mutation operations\<close>

text \<open>
  Every operation reads \<open>self.peers\<close> or \<open>self.interface\<close> first, which builds the cache;
  the later reads of the same property in the operation find it built and return the same
  dictionary, so the model reads it once. \<open>str(key)\<close> of the key \<open>None\<close> is \<open>None\<close>.
\<close>

definition str_key :: "pykey \<Rightarrow> string" where
  "str_key key = (case key of None \<Rightarrow> ''None'' | Some a \<Rightarrow> str_atom a)"

definition add_peer :: "pykey \<Rightarrow> string option \<Rightarrow> wgconfig \<Rightarrow> (error + unit) \<times> wgconfig" where
  "add_peer key leading_comment s =
     (case peers s of
        (Inl err, s1) \<Rightarrow> (Inl err, s1)
      | (Inr ps, s1) \<Rightarrow>
          if map_of ps key \<noteq> None then (Inl KeyError, s1)
          else
            (case handle_leading_comment leading_comment (s1\<lparr>lines := lines s1 @ [[]]\<rparr>) of
               (Inl err, s2) \<Rightarrow> (Inl err, s2)
             | (Inr _, s2) \<Rightarrow>
                 (Inr (), invalidate_data
                            (s2\<lparr>lines := lines s2 @ [''[Peer]'', keyattr s2 @ '' = '' @ str_key key]\<rparr>))))"

definition del_peer :: "pykey \<Rightarrow> wgconfig \<Rightarrow> (error + unit) \<times> wgconfig" where
  "del_peer key s =
     (case peers s of
        (Inl err, s1) \<Rightarrow> (Inl err, s1)
      | (Inr ps, s1) \<Rightarrow>
          (case map_of ps key of
             None \<Rightarrow> (Inl KeyError, s1)
           | Some d \<Rightarrow>
               (case dict_get d SECTION_FIRSTLINE of Inl err \<Rightarrow> (Inl err, s1) | Inr f \<Rightarrow>
               (case dict_get d SECTION_LASTLINE of Inl err \<Rightarrow> (Inl err, s1) | Inr l \<Rightarrow>
               (case as_int f of Inl err \<Rightarrow> (Inl err, s1) | Inr fi \<Rightarrow>
               (case (if fi > 0
                      then (case py_get (lines s1) (fi - 1) of
                              Inl err \<Rightarrow> Inl err
                            | Inr prev \<Rightarrow> Inr (if length prev = 0 then fi - 1 else fi))
                      else Inr fi) of
                  Inl err \<Rightarrow> (Inl err, s1)
                | Inr section_firstline \<Rightarrow>
                    (case as_int l of Inl err \<Rightarrow> (Inl err, s1) | Inr li \<Rightarrow>
                       (let result = (if section_firstline > 0
                                      then py_slice (lines s1) 0 section_firstline else [])
                                     @ py_slice_from (lines s1) (li + 1)
                        in (Inr (), invalidate_data (s1\<lparr>lines := result\<rparr>))))))))))"

definition get_sectioninfo :: "pykey \<Rightarrow> wgconfig \<Rightarrow> (error + pyval \<times> pyval) \<times> wgconfig" where
  "get_sectioninfo key s =
     (case key of
        None \<Rightarrow>
          (case interface s of
             (Inl err, s1) \<Rightarrow> (Inl err, s1)
           | (Inr d, s1) \<Rightarrow>
               (case dict_get d SECTION_FIRSTLINE of Inl err \<Rightarrow> (Inl err, s1) | Inr f \<Rightarrow>
               (case dict_get d SECTION_LASTLINE of Inl err \<Rightarrow> (Inl err, s1) | Inr l \<Rightarrow>
                (Inr (f, l), s1))))
      | Some _ \<Rightarrow>
          (case peers s of
             (Inl err, s1) \<Rightarrow> (Inl err, s1)
           | (Inr ps, s1) \<Rightarrow>
               (case map_of ps key of
                  None \<Rightarrow> (Inl KeyError, s1)
                | Some d \<Rightarrow>
                    (case dict_get d SECTION_FIRSTLINE of Inl err \<Rightarrow> (Inl err, s1) | Inr f \<Rightarrow>
                    (case dict_get d SECTION_LASTLINE of Inl err \<Rightarrow> (Inl err, s1) | Inr l \<Rightarrow>
                     (Inr (f, l), s1))))))"

text \<open>The check of a leading comment in \<open>add_attr\<close>, made before any change.\<close>

definition check_comment :: "string option \<Rightarrow> error + unit" where
  "check_comment leading_comment =
     (case leading_comment of
        None \<Rightarrow> Inr ()
      | Some c \<Rightarrow>
          (case strip c of
             [] \<Rightarrow> Inl IndexError
           | x # _ \<Rightarrow> if x \<noteq> CHR ''#'' then Inl ValueError else Inr ()))"

text \<open>The scan of \<open>add_attr\<close>: \<open>line_found\<close> ends as the last index whose name matches.\<close>

fun find_attr :: "string list \<Rightarrow> string \<Rightarrow> int list \<Rightarrow> int option \<Rightarrow> error + int option" where
  "find_attr ls attr [] line_found = Inr line_found"
| "find_attr ls attr (i # rest) line_found =
     (case py_get ls i of
        Inl err \<Rightarrow> Inl err
      | Inr line \<Rightarrow>
          (case parse_line line of
             Inl err \<Rightarrow> Inl err
           | Inr (line_attr, line_value, line_comment) \<Rightarrow>
               find_attr ls attr rest (if attr = line_attr then Some i else line_found)))"

definition add_attr ::
  "pykey \<Rightarrow> string \<Rightarrow> atom \<Rightarrow> string option \<Rightarrow> bool \<Rightarrow> wgconfig \<Rightarrow> (error + unit) \<times> wgconfig" where
  "add_attr key attr value leading_comment append_as_line s =
     (case get_sectioninfo key s of
        (Inl err, s1) \<Rightarrow> (Inl err, s1)
      | (Inr (f, l), s1) \<Rightarrow>
          (case check_comment leading_comment of Inl err \<Rightarrow> (Inl err, s1) | Inr _ \<Rightarrow>
          (case as_int f of Inl err \<Rightarrow> (Inl err, s1) | Inr fi \<Rightarrow>
          (case as_int l of Inl err \<Rightarrow> (Inl err, s1) | Inr li \<Rightarrow>
          (case find_attr (lines s1) attr [fi + 1..li] None of
             Inl err \<Rightarrow> (Inl err, s1)
           | Inr line_found \<Rightarrow>
               (case (if line_found = None \<or> append_as_line
                      then (let pos = (case line_found of None \<Rightarrow> li | Some i \<Rightarrow> i) + 1
                            in Inr (pos, py_insert (lines s1) pos (attr @ '' = '' @ str_atom value)))
                      else (let pos = the line_found
                            in case py_get (lines s1) pos of
                                 Inl err \<Rightarrow> Inl err
                               | Inr line \<Rightarrow>
                                   (case parse_line line of
                                      Inl err \<Rightarrow> Inl err
                                    | Inr (line_attr, line_value, line_comment) \<Rightarrow>
                                        (let line_value' = line_value @ [value];
                                             line_comment' = (if length line_comment > 0
                                                              then '' '' @ line_comment else line_comment);
                                             new = line_attr @ '' = ''
                                                   @ join '', '' (map str_atom line_value') @ line_comment'
                                         in case py_set (lines s1) pos new of
                                              Inl err \<Rightarrow> Inl err
                                            | Inr ls' \<Rightarrow> Inr (pos, ls'))))) of
                  Inl err \<Rightarrow> (Inl err, s1)
                | Inr (pos, ls') \<Rightarrow>
                    (let ls'' = (case leading_comment of
                                   None \<Rightarrow> ls'
                                 | Some c \<Rightarrow> py_insert ls' pos c)
                     in (Inr (), invalidate_data (s1\<lparr>lines := ls''\<rparr>)))))))))"

text \<open>The scan of \<open>del_attr\<close>: all indices whose name matches and, when a value is given,
  whose value list holds it.\<close>

fun find_all :: "string list \<Rightarrow> string \<Rightarrow> atom option \<Rightarrow> int list \<Rightarrow> int list \<Rightarrow> error + int list" where
  "find_all ls attr value [] line_found = Inr line_found"
| "find_all ls attr value (i # rest) line_found =
     (case py_get ls i of
        Inl err \<Rightarrow> Inl err
      | Inr line \<Rightarrow>
          (case parse_line line of
             Inl err \<Rightarrow> Inl err
           | Inr (line_attr, line_value, line_comment) \<Rightarrow>
               find_all ls attr value rest
                 (if attr = line_attr \<and> (value = None \<or> the value \<in> set line_value)
                  then line_found @ [i] else line_found)))"

text \<open>\<open>', '.join(line_value)\<close> accepts \<open>str\<close> items only.\<close>

definition join_values :: "atom list \<Rightarrow> error + string" where
  "join_values vs =
     (if list_all (\<lambda>v. case v of S _ \<Rightarrow> True | I _ \<Rightarrow> False) vs
      then Inr (join '', '' (map str_atom vs))
      else Inl TypeError)"

text \<open>
  The processing of the matched lines, given in the order in which they are processed
  (the reverse of the order found). The line buffer is changed in place, so a failure
  leaves the changes made so far: the buffer is returned in every case.
\<close>

fun del_process :: "atom option \<Rightarrow> int list \<Rightarrow> string list \<Rightarrow> (error + unit) \<times> string list" where
  "del_process value [] ls = (Inr (), ls)"
| "del_process value (i # rest) ls =
     (case value of
        None \<Rightarrow>
          (case py_del ls i of
             Inl err \<Rightarrow> (Inl err, ls)
           | Inr ls' \<Rightarrow> del_process value rest ls')
      | Some v \<Rightarrow>
          (case py_get ls i of
             Inl err \<Rightarrow> (Inl err, ls)
           | Inr line \<Rightarrow>
               (case parse_line line of
                  Inl err \<Rightarrow> (Inl err, ls)
                | Inr (line_attr, line_value, line_comment) \<Rightarrow>
                    if v \<notin> set line_value then (Inl ValueError, ls)
                    else
                      (let line_value' = remove1 v line_value
                       in if length line_value' > 0 then
                            (case join_values line_value' of
                               Inl err \<Rightarrow> (Inl err, ls)
                             | Inr joined \<Rightarrow>
                                 (case py_set ls i (line_attr @ '' = '' @ joined @ line_comment) of
                                    Inl err \<Rightarrow> (Inl err, ls)
                                  | Inr ls' \<Rightarrow> del_process value rest ls'))
                          else
                            (case py_del ls i of
                               Inl err \<Rightarrow> (Inl err, ls)
                             | Inr ls' \<Rightarrow> del_process value rest ls')))))"

text \<open>The loop over the leading comments: \<open>while i > 0\<close>.\<close>

function comment_scan :: "int \<Rightarrow> string list \<Rightarrow> (error + unit) \<times> string list" where
  "comment_scan i ls =
     (if i > 0 then
        (case py_get ls i of
           Inl err \<Rightarrow> (Inl err, ls)
         | Inr line \<Rightarrow>
             if length line \<noteq> 0 \<and> hd line = CHR ''#'' then
               (case py_del ls i of
                  Inl err \<Rightarrow> (Inl err, ls)
                | Inr ls' \<Rightarrow> comment_scan (i - 1) ls')
             else (Inr (), ls))
      else (Inr (), ls))"
  by pat_completeness auto
termination
  by (relation "measure (\<lambda>(i, ls). nat i)") auto

declare comment_scan.simps [simp del]

definition del_attr ::
  "pykey \<Rightarrow> string \<Rightarrow> atom option \<Rightarrow> bool \<Rightarrow> wgconfig \<Rightarrow> (error + unit) \<times> wgconfig" where
  "del_attr key attr value remove_leading_comments s =
     (case get_sectioninfo key s of
        (Inl err, s1) \<Rightarrow> (Inl err, s1)
      | (Inr (f, l), s1) \<Rightarrow>
          (case as_int f of Inl err \<Rightarrow> (Inl err, s1) | Inr fi \<Rightarrow>
          (case as_int l of Inl err \<Rightarrow> (Inl err, s1) | Inr li \<Rightarrow>
          (case find_all (lines s1) attr value [fi + 1..li] [] of
             Inl err \<Rightarrow> (Inl err, s1)
           | Inr line_found \<Rightarrow>
               if length line_found = 0 then (Inl ValueError, s1)
               else
                 (case del_process value (rev line_found) (lines s1) of
                    (Inl err, ls') \<Rightarrow> (Inl err, s1\<lparr>lines := ls'\<rparr>)
                  | (Inr _, ls') \<Rightarrow>
                      if remove_leading_comments then
                        (case comment_scan (hd line_found - 1) ls' of
                           (Inl err, ls'') \<Rightarrow> (Inl err, s1\<lparr>lines := ls''\<rparr>)
                         | (Inr _, ls'') \<Rightarrow> (Inr (), invalidate_data (s1\<lparr>lines := ls''\<rparr>)))
                      else (Inr (), invalidate_data (s1\<lparr>lines := ls'\<rparr>)))))))"

text \<open>
  The chained comparison \<open>section_firstline <= i <= section_lastline\<close>: the second
  comparison is made only when the first holds.
\<close>

definition in_section :: "pyval \<Rightarrow> pyval \<Rightarrow> int \<Rightarrow> error + bool" where
  "in_section f l i =
     (case as_int f of
        Inl err \<Rightarrow> Inl err
      | Inr fi \<Rightarrow>
          if fi \<le> i then (case as_int l of Inl err \<Rightarrow> Inl err | Inr li \<Rightarrow> Inr (i \<le> li))
          else Inr False)"

text \<open>The loops of \<open>enable_peer\<close> and \<open>disable_peer\<close> over \<open>enumerate(self.lines)\<close>,
  building \<open>result\<close>.\<close>

fun enable_loop :: "pyval \<Rightarrow> pyval \<Rightarrow> int \<Rightarrow> string list \<Rightarrow> error + string list" where
  "enable_loop f l i [] = Inr []"
| "enable_loop f l i (line # rest) =
     (case in_section f l i of
        Inl err \<Rightarrow> Inl err
      | Inr b \<Rightarrow>
          (case enable_loop f l (i + 1) rest of
             Inl err \<Rightarrow> Inl err
           | Inr result \<Rightarrow> Inr ((if b then replace_marker line else line) # result)))"

fun disable_loop :: "pyval \<Rightarrow> pyval \<Rightarrow> int \<Rightarrow> string list \<Rightarrow> error + string list" where
  "disable_loop f l i [] = Inr []"
| "disable_loop f l i (line # rest) =
     (case in_section f l i of
        Inl err \<Rightarrow> Inl err
      | Inr b \<Rightarrow>
          (case disable_loop f l (i + 1) rest of
             Inl err \<Rightarrow> Inl err
           | Inr result \<Rightarrow> Inr (((if b then marker else []) @ line) # result)))"

definition enable_peer :: "pykey \<Rightarrow> wgconfig \<Rightarrow> (error + unit) \<times> wgconfig" where
  "enable_peer key s =
     (case peers s of
        (Inl err, s1) \<Rightarrow> (Inl err, s1)
      | (Inr ps, s1) \<Rightarrow>
          (case map_of ps key of
             None \<Rightarrow> (Inl KeyError, s1)
           | Some d \<Rightarrow>
               (case dict_get d SECTION_FIRSTLINE of Inl err \<Rightarrow> (Inl err, s1) | Inr f \<Rightarrow>
               (case dict_get d SECTION_LASTLINE of Inl err \<Rightarrow> (Inl err, s1) | Inr l \<Rightarrow>
               (case enable_loop f l 0 (lines s1) of
                  Inl err \<Rightarrow> (Inl err, s1)
                | Inr result \<Rightarrow> (Inr (), invalidate_data (s1\<lparr>lines := result\<rparr>)))))))"

definition disable_peer :: "pykey \<Rightarrow> wgconfig \<Rightarrow> (error + unit) \<times> wgconfig" where
  "disable_peer key s =
     (case peers s of
        (Inl err, s1) \<Rightarrow> (Inl err, s1)
      | (Inr ps, s1) \<Rightarrow>
          (case map_of ps key of
             None \<Rightarrow> (Inl KeyError, s1)
           | Some d \<Rightarrow>
               (case get_peer_enabled key s1 of
                  (Inl err, s2) \<Rightarrow> (Inl err, s2)
                | (Inr enabled, s2) \<Rightarrow>
                    if \<not> enabled then (Inr (), s2)
                    else
                      (case dict_get d SECTION_FIRSTLINE of Inl err \<Rightarrow> (Inl err, s2) | Inr f \<Rightarrow>
                      (case dict_get d SECTION_LASTLINE of Inl err \<Rightarrow> (Inl err, s2) | Inr l \<Rightarrow>
                      (case disable_loop f l 0 (lines s2) of
                         Inl err \<Rightarrow> (Inl err, s2)
                       | Inr result \<Rightarrow> (Inr (), invalidate_data (s2\<lparr>lines := result\<rparr>))))))))"

text \<open>The constructor \<open>__init__\<close>: an empty buffer, then \<open>initialize_file()\<close>.\<close>

definition wgconfig_init :: "string \<Rightarrow> wgconfig" where
  "wgconfig_init k =
     snd (initialize_file None \<lparr>keyattr = k, lines = [], priv_interface = None, priv_peers = None\<rparr>)"

section \<open>Notions used in the statements\<close>

text \<open>The line as the parse pass sees it, and the section name of a header line.\<close>

definition view :: "string \<Rightarrow> string" where
  "view raw = strip (replace_marker raw)"

definition header_name :: "string \<Rightarrow> string" where
  "header_name v = lower (fst (partition_chr CHR '']'' (tl v)))"

text \<open>A line that is a bracketed header of a section other than Interface and Peer.\<close>

definition unsupported_header :: "string \<Rightarrow> bool" where
  "unsupported_header raw \<longleftrightarrow>
     startswith (view raw) ''['' \<and> header_name (view raw) \<notin> set [''interface'', ''peer'']"

text \<open>The derived records are unbuilt.\<close>

definition unbuilt :: "wgconfig \<Rightarrow> bool" where
  "unbuilt s \<longleftrightarrow> priv_interface s = None \<and> priv_peers s = None"

text \<open>
  The derived records agree with the line buffer: they are unbuilt, or they are what a
  successful parse pass over the buffer builds.
\<close>

definition cache_valid :: "wgconfig \<Rightarrow> bool" where
  "cache_valid s \<longleftrightarrow> unbuilt s \<or> parse_lines s = (Inr (), s)"

text \<open>Both derived records are built.\<close>

definition built :: "wgconfig \<Rightarrow> bool" where
  "built s \<longleftrightarrow> priv_interface s \<noteq> None \<and> priv_peers s \<noteq> None"

text \<open>A new object that has read the file made of the given lines.\<close>

definition cfg :: "string list \<Rightarrow> wgconfig" where
  "cfg ls = read_from_fileobj (concat (map (\<lambda>l. l @ [CHR 0x0A]) ls)) (wgconfig_init ''PublicKey'')"


text \<open>Example objects: a file with one enabled peer, and one with a disabled peer.\<close>

definition peer_cfg :: wgconfig where
  "peer_cfg = cfg [''[Interface]'', ''PrivateKey = AAA='', [], ''[Peer]'', ''PublicKey = K'',
                   ''AllowedIPs = 10.0.0.2/32'']"


text \<open>Lines as \<open>read_from_fileobj\<close> stores them: stripped on the right and without newline.\<close>

definition clean_line :: "string \<Rightarrow> bool" where
  "clean_line l \<longleftrightarrow> rstrip l = l \<and> CHR 0x0A \<notin> set l"

text \<open>
  A stored section record is well-formed for a line buffer: its bounds are indices of the
  buffer, in order, and the disabled flag tells whether the first line has the marker.
\<close>

definition good_section :: "string list \<Rightarrow> section_dict \<Rightarrow> bool" where
  "good_section ls d \<longleftrightarrow>
     (\<exists>fi li. map_of d SECTION_FIRSTLINE = Some (Scalar (I fi))
            \<and> map_of d SECTION_LASTLINE = Some (Scalar (I li))
            \<and> 0 \<le> fi \<and> fi \<le> li \<and> li < int (length ls)
            \<and> map_of d SECTION_DISABLED = Some (BoolV (startswith (ls ! nat fi) marker)))"

definition cache_good :: "wgconfig \<Rightarrow> bool" where
  "cache_good s \<longleftrightarrow>
     (\<forall>d. priv_interface s = Some d \<longrightarrow> d = [] \<or> good_section (lines s) d)
     \<and> (\<forall>ps k d. priv_peers s = Some ps \<longrightarrow> map_of ps k = Some d \<longrightarrow> good_section (lines s) d)"

text \<open>What the loop knows of an open section when it closes it.\<close>

definition close_ok :: "int \<Rightarrow> (string \<times> atom list) list \<Rightarrow> bool" where
  "close_ok n sd \<longleftrightarrow>
     (\<exists>f rest l. map_of sd SECTION_FIRSTLINE = Some (I f # rest)
              \<and> map_of sd SECTION_LASTLINE = Some [I l]
              \<and> 0 \<le> f \<and> f \<le> l \<and> l < n)"

definition sd_inv :: "int \<Rightarrow> (string \<times> atom list) list \<Rightarrow> int option \<Rightarrow> bool" where
  "sd_inv i sd le \<longleftrightarrow>
     (\<exists>f rest l. map_of sd SECTION_FIRSTLINE = Some (I f # rest)
              \<and> map_of sd SECTION_LASTLINE = Some [I l]
              \<and> 0 \<le> f \<and> f \<le> l \<and> l < i \<and> (\<forall>e. le = Some e \<longrightarrow> f < e))"

definition loop_inv :: "int \<Rightarrow> loop_state \<Rightarrow> bool" where
  "loop_inv i st \<longleftrightarrow>
     (case st of (sec, sd, le) \<Rightarrow>
        (\<forall>e. le = Some e \<longrightarrow> - 1 \<le> e \<and> e < i) \<and> (sec \<noteq> None \<longrightarrow> sd_inv i sd le))"

text \<open>
  The words of the specification for \<open>add_attr\<close>: the decoded attribute name of a line, the
  last line of a section whose decoded name is the attribute, the encoding of a decoded
  line, and a leading comment put directly before a position.
\<close>

definition attr_at :: "string list \<Rightarrow> int \<Rightarrow> string option" where
  "attr_at ls j = (case parse_line (ls ! nat j) of Inl e \<Rightarrow> None | Inr (a, vs, c) \<Rightarrow> Some a)"

definition last_match :: "string list \<Rightarrow> string \<Rightarrow> int \<Rightarrow> int \<Rightarrow> int option" where
  "last_match ls attr fi li =
     (case filter (\<lambda>j. attr_at ls j = Some attr) [fi + 1..li] of
        [] \<Rightarrow> None
      | m # ms \<Rightarrow> Some (last (m # ms)))"

definition encode_line :: "string \<Rightarrow> atom list \<Rightarrow> string \<Rightarrow> string" where
  "encode_line a vs c =
     a @ '' = '' @ join '', '' (map str_atom vs) @ (if c = [] then [] else '' '' @ c)"

definition insert_at :: "nat \<Rightarrow> 'a \<Rightarrow> 'a list \<Rightarrow> 'a list" where
  "insert_at pos x ls = take pos ls @ [x] @ drop pos ls"

definition with_leading_comment :: "string option \<Rightarrow> nat \<Rightarrow> string list \<Rightarrow> string list" where
  "with_leading_comment lc pos ls = (case lc of None \<Rightarrow> ls | Some c \<Rightarrow> insert_at pos c ls)"

definition add_attr_spec ::
  "string list \<Rightarrow> int \<Rightarrow> int \<Rightarrow> string \<Rightarrow> atom \<Rightarrow> string option \<Rightarrow> bool \<Rightarrow> string list" where
  "add_attr_spec ls fi li attr v lc append_as_line =
     (case last_match ls attr fi li of
        None \<Rightarrow> with_leading_comment lc (nat li + 1)
                  (insert_at (nat li + 1) (attr @ '' = '' @ str_atom v) ls)
      | Some m \<Rightarrow>
          if append_as_line
          then with_leading_comment lc (nat m + 1)
                 (insert_at (nat m + 1) (attr @ '' = '' @ str_atom v) ls)
          else (case parse_line (ls ! nat m) of
                  Inl e \<Rightarrow> ls
                | Inr (a, vs, c) \<Rightarrow>
                    with_leading_comment lc (nat m) (ls[nat m := encode_line a (vs @ [v]) c])))"

text \<open>A comment line as the scan of \<open>del_attr\<close> tests it: not empty, first character \<open>#\<close>.\<close>

definition is_comment_line :: "string \<Rightarrow> bool" where
  "is_comment_line l \<longleftrightarrow> length l \<noteq> 0 \<and> hd l = CHR ''#''"

text \<open>
  The number of comment lines directly above index \<open>m\<close>, counted upwards from \<open>m - 1\<close> and
  never beyond index 1.
\<close>

definition comment_run :: "string list \<Rightarrow> nat \<Rightarrow> nat" where
  "comment_run ls m = length (takeWhile is_comment_line (rev (drop 1 (take m ls))))"

text \<open>
  A line matches the request of \<open>del_attr\<close>: its decoded name is the attribute and, when a
  value is given, its decoded values hold it. The first matching line of a section is the
  first index after the first line of the section whose line matches.
\<close>

definition value_match :: "string list \<Rightarrow> string \<Rightarrow> atom option \<Rightarrow> int \<Rightarrow> bool" where
  "value_match ls attr v j =
     (case parse_line (ls ! nat j) of
        Inl e \<Rightarrow> False
      | Inr (a, vs, c) \<Rightarrow> attr = a \<and> (v = None \<or> the v \<in> set vs))"

definition first_match :: "string list \<Rightarrow> string \<Rightarrow> atom option \<Rightarrow> int \<Rightarrow> int \<Rightarrow> int option" where
  "first_match ls attr v fi li =
     (case filter (value_match ls attr v) [fi + 1..li] of
        [] \<Rightarrow> None
      | m # ms \<Rightarrow> Some m)"

text \<open>
  A text in the form in which it is written: every line ends with a newline and has no
  whitespace before it.
\<close>

definition normal_line :: "string \<Rightarrow> bool" where
  "normal_line l \<longleftrightarrow> l \<noteq> [] \<and> last l = CHR 0x0A \<and> rstrip (butlast l) = butlast l"

definition normal_text :: "string \<Rightarrow> bool" where
  "normal_text t \<longleftrightarrow> list_all normal_line (readlines t)"

text \<open>Example object: an Interface section with a comment line that \<open>parse_line\<close> cannot decode.\<close>

definition undecodable_cfg :: wgconfig where
  "undecodable_cfg = cfg [''[Interface]'', ''# X = '' @ [CHR 0xBD], ''A = 1'']"



text \<open>
  A line of a section that does not set the attribute \<open>k\<close>: a blank line, a comment, or an
  attribute line of another name; not a header.
\<close>

definition no_attr_line :: "string \<Rightarrow> string \<Rightarrow> bool" where
  "no_attr_line k raw \<longleftrightarrow>
     view raw = [] \<or>
     (\<not> startswith (view raw) ''['' \<and>
      (startswith (view raw) ''#'' \<or>
       (case parse_line (view raw) of Inl e \<Rightarrow> False | Inr (attr, vs, c) \<Rightarrow> attr \<noteq> k)))"

text \<open>The key attribute is none of the names that the parse pass stores itself.\<close>

definition plain_key :: "string \<Rightarrow> bool" where
  "plain_key k \<longleftrightarrow> k \<notin> set [SECTION_FIRSTLINE, SECTION_LASTLINE, SECTION_RAW, SECTION_DISABLED]"

text \<open>
  A Peer section without the key attribute: its header, its lines, none of which sets the
  attribute, and what follows, which is nothing or begins with the next header.
\<close>

definition keyless_peer :: "string \<Rightarrow> string \<Rightarrow> string list \<Rightarrow> string list \<Rightarrow> bool" where
  "keyless_peer k hdr body rest \<longleftrightarrow>
     startswith (view hdr) ''['' \<and> header_name (view hdr) = ''peer''
     \<and> list_all (no_attr_line k) body
     \<and> (case rest of [] \<Rightarrow> True | raw # _ \<Rightarrow> startswith (view raw) ''['')"

text \<open>The buffer with \<open>f\<close> applied to the lines of the indices from \<open>fi\<close> to \<open>li\<close>.\<close>

definition toggled :: "(string \<Rightarrow> string) \<Rightarrow> int \<Rightarrow> int \<Rightarrow> string list \<Rightarrow> string list" where
  "toggled f fi li ls =
     map (\<lambda>(j, line). if fi \<le> int j \<and> int j \<le> li then f line else line) (enumerate 0 ls)"

text \<open>Every record stored under the key \<open>None\<close> has no key attribute; a record is stored there.\<close>

definition none_keyless :: "wgconfig \<Rightarrow> bool" where
  "none_keyless s \<longleftrightarrow>
     (\<forall>ps d. priv_peers s = Some ps \<longrightarrow> map_of ps None = Some d \<longrightarrow> map_of d (keyattr s) = None)"

definition has_none :: "wgconfig \<Rightarrow> bool" where
  "has_none s \<longleftrightarrow> (\<exists>ps d. priv_peers s = Some ps \<and> map_of ps None = Some d)"

text \<open>Example object: a file with a Peer section that has no key attribute, not parsed yet.\<close>

definition keyless_file :: wgconfig where
  "keyless_file = cfg [''[Interface]'', [], ''[Peer]'', ''AllowedIPs = 10.0.0.2/32'', [],
                       ''[Peer]'', ''PublicKey = K'']"


text \<open>
  Example objects: a section with an indented comment line above an attribute line, and a
  buffer whose first line is a comment directly above an attribute line.
\<close>

definition indented_cfg :: wgconfig where
  "indented_cfg = cfg [''[Interface]'', ''A = 1'', ''  # note'', ''B = 2'']"

definition top_comment_cfg :: wgconfig where
  "top_comment_cfg = cfg [''# a'', ''A = 1'', ''[Interface]'']"

text \<open>
  A section record without the two entries that the parse pass takes from the text of the
  lines (the raw lines and the disabled flag), the peer map with its records so reduced, and
  what is left of an object when the text of its lines is forgotten.
\<close>

definition erase :: "section_dict \<Rightarrow> section_dict" where
  "erase d = filter (\<lambda>(k, v). k \<noteq> SECTION_RAW \<and> k \<noteq> SECTION_DISABLED) d"

definition erase_peers :: "(pykey \<times> section_dict) list \<Rightarrow> (pykey \<times> section_dict) list" where
  "erase_peers ps = map (\<lambda>(k, d). (k, erase d)) ps"

definition erase_state ::
  "wgconfig \<Rightarrow> string \<times> nat \<times> section_dict option \<times> (pykey \<times> section_dict) list option" where
  "erase_state s =
     (keyattr s, length (lines s), map_option erase (priv_interface s),
      map_option erase_peers (priv_peers s))"

text \<open>Example object: an enabled peer with one line that carries the disable marker.\<close>

definition marked_cfg :: wgconfig where
  "marked_cfg = cfg [''[Interface]'', [], ''[Peer]'', ''PublicKey = K'', ''#! AllowedIPs = 10.0.0.2/32'']"

section \<open>Basic facts about the parse pass\<close>

lemma close_section_lines: "lines (snd (close_section sec sd s)) = lines s"
  by (simp add: close_section_def Let_def split: option.split sum.split pyval.split)

lemma close_section_keyattr: "keyattr (snd (close_section sec sd s)) = keyattr s"
  by (simp add: close_section_def Let_def split: option.split sum.split pyval.split)

lemma close_section_frame:
  "close_section sec sd s = (r, s') \<Longrightarrow> lines s' = lines s \<and> keyattr s' = keyattr s"
  using close_section_lines [of sec sd s] close_section_keyattr [of sec sd s] by simp

text \<open>The four branches of the loop body, by the form of the line.\<close>

lemma parse_step_blank:
  "view raw = [] \<Longrightarrow> parse_step i raw (sec, sd, le) s = (Inr (sec, sd, Some i), s)"
  by (simp add: parse_step_def view_def)

lemma parse_step_comment:
  "view raw \<noteq> [] \<Longrightarrow> \<not> startswith (view raw) ''['' \<Longrightarrow> startswith (view raw) ''#'' \<Longrightarrow>
   parse_step i raw (sec, sd, le) s = (Inr (sec, AList.update SECTION_LASTLINE [I i] sd, le), s)"
  by (simp add: parse_step_def view_def)

lemma parse_step_regular:
  "view raw \<noteq> [] \<Longrightarrow> \<not> startswith (view raw) ''['' \<Longrightarrow> \<not> startswith (view raw) ''#'' \<Longrightarrow>
   parse_step i raw (sec, sd, le) s =
     (case parse_line (view raw) of
        Inl err \<Rightarrow> (Inl err, s)
      | Inr (attr, value, c) \<Rightarrow>
          (Inr (sec, AList.update SECTION_LASTLINE [I i]
                  (AList.update attr ((case map_of sd attr of None \<Rightarrow> [] | Some v \<Rightarrow> v) @ value) sd), le), s))"
  by (simp add: parse_step_def view_def Let_def split: sum.split prod.split)

lemma parse_step_header:
  "view raw \<noteq> [] \<Longrightarrow> startswith (view raw) ''['' \<Longrightarrow>
   parse_step i raw (sec, sd, le) s =
     (case close_section sec (case le of None \<Rightarrow> sd
                              | Some e \<Rightarrow> AList.update SECTION_LASTLINE [I (e - 1)] sd) s of
        (Inl err, s') \<Rightarrow> (Inl err, s')
      | (Inr u, s') \<Rightarrow>
          if header_name (view raw) \<notin> set [''interface'', ''peer''] then (Inl ValueError, s')
          else (Inr (Some (header_name (view raw)),
                     AList.update SECTION_LASTLINE [I i]
                       [(SECTION_FIRSTLINE, [I (case le of None \<Rightarrow> i | Some e \<Rightarrow> e + 1)])],
                     None), s'))"
  by (simp add: parse_step_def view_def header_name_def Let_def split: sum.split prod.split option.split)

lemma parse_step_frame:
  "parse_step i raw st s = (r, s') \<Longrightarrow> lines s' = lines s \<and> keyattr s' = keyattr s"
proof -
  assume a: "parse_step i raw st s = (r, s')"
  obtain sec sd le where st: "st = (sec, sd, le)" by (cases st)
  consider (blank) "view raw = []"
    | (header) "view raw \<noteq> []" "startswith (view raw) ''[''"
    | (comment) "view raw \<noteq> []" "\<not> startswith (view raw) ''[''" "startswith (view raw) ''#''"
    | (regular) "view raw \<noteq> []" "\<not> startswith (view raw) ''[''" "\<not> startswith (view raw) ''#''"
    by blast
  then show ?thesis
  proof cases
    case blank
    with a st show ?thesis by (simp add: parse_step_blank)
  next
    case header
    with a st show ?thesis
      by (auto simp: parse_step_header split: prod.splits sum.splits if_splits dest: close_section_frame)
  next
    case comment
    with a st show ?thesis by (simp add: parse_step_comment)
  next
    case regular
    with a st show ?thesis
      by (auto simp: parse_step_regular split: prod.splits sum.splits)
  qed
qed

lemma parse_loop_frame:
  "parse_loop i ls st s = (r, s') \<Longrightarrow> lines s' = lines s \<and> keyattr s' = keyattr s"
proof (induction ls arbitrary: i st s)
  case Nil
  then show ?case by simp
next
  case (Cons raw rest)
  obtain r1 s1 where step: "parse_step i raw st s = (r1, s1)"
    by (cases "parse_step i raw st s")
  show ?case
  proof (cases r1)
    case (Inl err)
    with Cons.prems step show ?thesis
      by (auto dest: parse_step_frame)
  next
    case (Inr st')
    with Cons.prems step have "parse_loop (i + 1) rest st' s1 = (r, s')"
      by simp
    from Cons.IH [OF this] parse_step_frame [OF step] show ?thesis
      by simp
  qed
qed

lemma parse_lines_frame:
  "parse_lines s = (r, s') \<Longrightarrow> lines s' = lines s \<and> keyattr s' = keyattr s"
proof -
  assume a: "parse_lines s = (r, s')"
  let ?s0 = "s\<lparr>priv_interface := Some [], priv_peers := Some []\<rparr>"
  obtain r1 s1 where loop: "parse_loop 0 (lines ?s0) (None, [], Some (- 1)) ?s0 = (r1, s1)"
    by (cases "parse_loop 0 (lines ?s0) (None, [], Some (- 1)) ?s0")
  from parse_loop_frame [OF loop] have f1: "lines s1 = lines s" "keyattr s1 = keyattr s" by simp_all
  show ?thesis
  proof (cases r1)
    case (Inl err)
    with a loop f1 show ?thesis by (simp add: parse_lines_def)
  next
    case (Inr st)
    obtain sec sd le where st: "st = (sec, sd, le)" by (cases st)
    with a loop Inr have "close_section sec sd s1 = (r, s')"
      by (simp add: parse_lines_def)
    from close_section_frame [OF this] f1 show ?thesis by simp
  qed
qed

lemma parse_lines_cache_irrelevant:
  "parse_lines (s\<lparr>priv_interface := a, priv_peers := b\<rparr>) = parse_lines s"
  by (simp add: parse_lines_def)

lemma parse_lines_invalidate: "parse_lines (invalidate_data s) = parse_lines s"
  by (simp add: parse_lines_def invalidate_data_def)

text \<open>Once the pass has started, both caches stay built, whatever happens.\<close>


lemma close_section_built: "built s \<Longrightarrow> built (snd (close_section sec sd s))"
  by (auto simp: close_section_def built_def Let_def split: option.split sum.split pyval.split)

lemma parse_step_built: "built s \<Longrightarrow> built (snd (parse_step i raw st s))"
proof -
  assume b: "built s"
  obtain sec sd le where st: "st = (sec, sd, le)" by (cases st)
  consider (blank) "view raw = []"
    | (header) "view raw \<noteq> []" "startswith (view raw) ''[''"
    | (comment) "view raw \<noteq> []" "\<not> startswith (view raw) ''[''" "startswith (view raw) ''#''"
    | (regular) "view raw \<noteq> []" "\<not> startswith (view raw) ''[''" "\<not> startswith (view raw) ''#''"
    by blast
  then show ?thesis
  proof cases
    case blank
    with b st show ?thesis by (simp add: parse_step_blank)
  next
    case header
    let ?sd = "case le of None \<Rightarrow> sd | Some e \<Rightarrow> AList.update SECTION_LASTLINE [I (e - 1)] sd"
    from close_section_built [OF b, of sec ?sd] header st show ?thesis
      by (auto simp: parse_step_header split: prod.splits sum.splits if_splits)
  next
    case comment
    with b st show ?thesis by (simp add: parse_step_comment)
  next
    case regular
    with b st show ?thesis
      by (auto simp: parse_step_regular split: prod.splits sum.splits)
  qed
qed

lemma parse_loop_built: "built s \<Longrightarrow> built (snd (parse_loop i ls st s))"
proof (induction ls arbitrary: i st s)
  case Nil
  then show ?case by simp
next
  case (Cons raw rest)
  from parse_step_built [OF Cons.prems, of i raw st] Cons.IH show ?case
    by (auto split: prod.splits sum.splits)
qed

lemma parse_lines_built: "built (snd (parse_lines s))"
proof -
  let ?s0 = "s\<lparr>priv_interface := Some [], priv_peers := Some []\<rparr>"
  have "built ?s0" by (simp add: built_def)
  from parse_loop_built [OF this, of 0 "lines ?s0" "(None, [], Some (- 1))"]
  show ?thesis
    by (auto simp: parse_lines_def split: prod.splits sum.splits dest: close_section_built)
qed

text \<open>An unsupported header anywhere in the buffer makes the pass fail.\<close>

lemma parse_step_unsupported:
  assumes "unsupported_header raw"
  shows "\<exists>e. fst (parse_step i raw st s) = Inl e"
proof -
  obtain sec sd le where st: "st = (sec, sd, le)" by (cases st)
  from assms have v: "view raw \<noteq> []" "startswith (view raw) ''[''"
    and n: "header_name (view raw) \<notin> set [''interface'', ''peer'']"
    by (auto simp: unsupported_header_def startswith_def)
  show ?thesis
    using n by (simp add: st parse_step_header [OF v] split: prod.splits sum.splits)
qed

lemma parse_loop_unsupported:
  assumes "\<exists>raw \<in> set ls. unsupported_header raw"
  shows "\<exists>e. fst (parse_loop i ls st s) = Inl e"
  using assms
proof (induction ls arbitrary: i st s)
  case Nil
  then show ?case by simp
next
  case (Cons raw rest)
  obtain r1 s1 where step: "parse_step i raw st s = (r1, s1)"
    by (cases "parse_step i raw st s")
  show ?case
  proof (cases r1)
    case (Inl err)
    with step show ?thesis by simp
  next
    case (Inr st')
    with step parse_step_unsupported [of raw i st s] have "\<not> unsupported_header raw"
      by auto
    with Cons.prems have "\<exists>raw \<in> set rest. unsupported_header raw" by simp
    from Cons.IH [OF this] step Inr show ?thesis by simp
  qed
qed

lemma parse_lines_unsupported:
  assumes "\<exists>raw \<in> set (lines s). unsupported_header raw"
  shows "\<exists>e. fst (parse_lines s) = Inl e"
proof -
  let ?s0 = "s\<lparr>priv_interface := Some [], priv_peers := Some []\<rparr>"
  from assms have "\<exists>raw \<in> set (lines ?s0). unsupported_header raw" by simp
  from parse_loop_unsupported [OF this, of 0 "(None, [], Some (- 1))" ?s0]
  show ?thesis
    by (auto simp: parse_lines_def split: prod.splits sum.splits)
qed

section \<open>The lazy properties\<close>

lemma interface_built: "priv_interface s = Some d \<Longrightarrow> interface s = (Inr d, s)"
  by (simp add: interface_def)

lemma peers_built: "priv_peers s = Some ps \<Longrightarrow> peers s = (Inr ps, s)"
  by (simp add: peers_def)

lemma interface_unbuilt:
  "priv_interface s = None \<Longrightarrow>
   interface s = (case parse_lines s of
                    (Inl err, s') \<Rightarrow> (Inl err, s')
                  | (Inr u, s') \<Rightarrow> (Inr (the (priv_interface s')), s'))"
  using parse_lines_built [of s]
  by (auto simp: interface_def built_def split: prod.splits sum.splits option.splits)

lemma peers_unbuilt:
  "priv_peers s = None \<Longrightarrow>
   peers s = (case parse_lines s of
                (Inl err, s') \<Rightarrow> (Inl err, s')
              | (Inr u, s') \<Rightarrow> (Inr (the (priv_peers s')), s'))"
  using parse_lines_built [of s]
  by (auto simp: peers_def built_def split: prod.splits sum.splits option.splits)

section \<open>Peers without key attribute\<close>

lemma map_of_delete_other: "k \<noteq> k' \<Longrightarrow> map_of (AList.delete k' ps) k = map_of ps k"
  by (simp add: AList.delete_conv')

lemma close_section_keyless:
  assumes "sec \<noteq> ''interface''" and "map_of (collapse sd) (keyattr s) = None"
    and "priv_peers s = Some ps" and "close_section (Some sec) sd s = (Inr u, s')"
  shows "\<exists>d. stamp (lines s) (collapse sd) = Inr d \<and> priv_peers s' = Some (AList.update None d ps)"
  using assms
  by (auto simp: close_section_def Let_def split: if_splits sum.splits)

section \<open>Invalidation by the mutating operations\<close>


lemma unbuilt_invalidate [simp]: "unbuilt (invalidate_data s)"
  by (simp add: unbuilt_def invalidate_data_def)







section \<open>Validity of the derived records\<close>

lemma same_buffer_eq:
  fixes s s' :: wgconfig
  assumes "lines s' = lines s" and "keyattr s' = keyattr s"
  shows "s' = s\<lparr>priv_interface := priv_interface s', priv_peers := priv_peers s'\<rparr>"
  using assms by (cases s, cases s') simp

lemma parse_lines_same:
  "\<exists>a b. snd (parse_lines s) = s\<lparr>priv_interface := a, priv_peers := b\<rparr>"
proof -
  obtain r s' where p: "parse_lines s = (r, s')" by (cases "parse_lines s")
  from parse_lines_frame [OF p] have "s' = s\<lparr>priv_interface := priv_interface s', priv_peers := priv_peers s'\<rparr>"
    by (intro same_buffer_eq) simp_all
  with p show ?thesis by auto
qed

lemma parse_lines_idem: "parse_lines s = (r, s') \<Longrightarrow> parse_lines s' = (r, s')"
proof -
  assume a: "parse_lines s = (r, s')"
  from parse_lines_same [of s] a obtain x y
    where "s' = s\<lparr>priv_interface := x, priv_peers := y\<rparr>" by auto
  then have "parse_lines s' = parse_lines s" by (simp add: parse_lines_cache_irrelevant)
  with a show ?thesis by simp
qed

lemma cache_valid_unbuilt: "unbuilt s \<Longrightarrow> cache_valid s"
  by (simp add: cache_valid_def)

lemma cache_valid_cases:
  assumes "cache_valid s"
  obtains (unbuilt) "priv_interface s = None" "priv_peers s = None"
  | (valid) d ps where "priv_interface s = Some d" "priv_peers s = Some ps" "parse_lines s = (Inr (), s)"
proof (cases "unbuilt s")
  case True
  then show ?thesis using unbuilt by (simp add: unbuilt_def)
next
  case False
  with assms have p: "parse_lines s = (Inr (), s)" by (simp add: cache_valid_def)
  from parse_lines_built [of s] p obtain d ps where "priv_interface s = Some d" "priv_peers s = Some ps"
    by (auto simp: built_def)
  with p show ?thesis using valid by blast
qed

lemma peers_cache_valid:
  assumes "cache_valid s" and "peers s = (Inr ps, s1)"
  shows "parse_lines s1 = (Inr (), s1) \<and> priv_peers s1 = Some ps \<and> lines s1 = lines s
         \<and> keyattr s1 = keyattr s \<and> parse_lines s = (Inr (), s1)"
  using assms(1)
proof (cases rule: cache_valid_cases)
  case unbuilt
  from assms(2) unbuilt(2) obtain u where p: "parse_lines s = (Inr u, s1)" and ps: "ps = the (priv_peers s1)"
    by (auto simp: peers_unbuilt split: prod.splits sum.splits)
  from parse_lines_built [of s] p have "priv_peers s1 \<noteq> None" by (simp add: built_def)
  with ps parse_lines_idem [OF p] parse_lines_frame [OF p] p show ?thesis by auto
next
  case (valid d qs)
  with assms(2) show ?thesis by (simp add: peers_built)
qed

lemma interface_cache_valid:
  assumes "cache_valid s" and "interface s = (Inr d, s1)"
  shows "parse_lines s1 = (Inr (), s1) \<and> priv_interface s1 = Some d \<and> lines s1 = lines s
         \<and> keyattr s1 = keyattr s \<and> parse_lines s = (Inr (), s1)"
  using assms(1)
proof (cases rule: cache_valid_cases)
  case unbuilt
  from assms(2) unbuilt(1) obtain u where p: "parse_lines s = (Inr u, s1)" and ps: "d = the (priv_interface s1)"
    by (auto simp: interface_unbuilt split: prod.splits sum.splits)
  from parse_lines_built [of s] p have "priv_interface s1 \<noteq> None" by (simp add: built_def)
  with ps parse_lines_idem [OF p] parse_lines_frame [OF p] p show ?thesis by auto
next
  case (valid d' qs)
  with assms(2) show ?thesis by (simp add: interface_built)
qed

lemma peers_result_built: "peers s = (Inr ps, s1) \<Longrightarrow> priv_peers s1 = Some ps"
  by (auto simp: peers_def split: option.splits prod.splits sum.splits)

lemma get_peer_enabled_after_peers:
  assumes "peers s = (Inr ps, s1)"
  shows "get_peer_enabled key s = get_peer_enabled key s1"
  using assms peers_built [OF peers_result_built [OF assms]]
  by (simp add: get_peer_enabled_def get_peer_def)



section \<open>Reading and writing the line buffer\<close>

lemma isspace_newline [simp]: "isspace (CHR 0x0A)"
  by (simp add: isspace_def)

lemma rstrip_append_newline: "rstrip (l @ [CHR 0x0A]) = rstrip l"
  by (simp add: rstrip_def)

lemma rstrip_idem: "rstrip (rstrip l) = rstrip l"
proof -
  have "dropWhile isspace (dropWhile isspace (rev l)) = dropWhile isspace (rev l)"
    by (rule dropWhile_idem)
  then show ?thesis by (simp add: rstrip_def)
qed

lemma readlines_no_newline: "CHR 0x0A \<notin> set l \<Longrightarrow> l \<noteq> [] \<Longrightarrow> readlines l = [l]"
proof (induction l)
  case Nil
  then show ?case by simp
next
  case (Cons c cs)
  then show ?case by (cases cs) auto
qed

lemma readlines_line:
  "CHR 0x0A \<notin> set l \<Longrightarrow> readlines (l @ CHR 0x0A # rest) = (l @ [CHR 0x0A]) # readlines rest"
  by (induction l) auto

lemma readlines_write:
  "\<forall>l \<in> set ls. CHR 0x0A \<notin> set l \<Longrightarrow>
   readlines (concat (map (\<lambda>line. line @ [CHR 0x0A]) ls)) = map (\<lambda>line. line @ [CHR 0x0A]) ls"
  by (induction ls) (simp_all add: readlines_line)

lemma readlines_member_newline:
  "l \<in> set (readlines t) \<Longrightarrow> CHR 0x0A \<notin> set (butlast l) \<and> l \<noteq> []"
proof (induction t arbitrary: l)
  case Nil
  then show ?case by simp
next
  case (Cons c cs)
  show ?case
  proof (cases "c = CHR 0x0A")
    case True
    with Cons show ?thesis by auto
  next
    case False
    show ?thesis
    proof (cases "readlines cs")
      case Nil
      with Cons.prems False show ?thesis by auto
    next
      case (Cons l0 ls0)
      with Cons.prems False have "l = c # l0 \<or> l \<in> set ls0" by auto
      then show ?thesis
      proof
        assume l: "l = c # l0"
        from Cons have "l0 \<in> set (readlines cs)" by simp
        from Cons.IH [OF this] l False show ?thesis by (cases l0) auto
      next
        assume "l \<in> set ls0"
        with Cons have "l \<in> set (readlines cs)" by simp
        from Cons.IH [OF this] show ?thesis .
      qed
    qed
  qed
qed

lemma rstrip_no_newline:
  assumes "CHR 0x0A \<notin> set (butlast l)"
  shows "CHR 0x0A \<notin> set (rstrip l)"
proof (cases l rule: rev_cases)
  case Nil
  then show ?thesis by (simp add: rstrip_def)
next
  case (snoc xs x)
  with assms have xs: "CHR 0x0A \<notin> set xs" by simp
  have sub: "set (rstrip xs) \<subseteq> set xs"
    using set_dropWhileD [of _ isspace "rev xs"] by (auto simp: rstrip_def)
  show ?thesis
  proof (cases "isspace x")
    case True
    with snoc have "rstrip l = rstrip xs" by (simp add: rstrip_def)
    with sub xs show ?thesis by auto
  next
    case False
    then have "x \<noteq> CHR 0x0A" by auto
    moreover from False snoc have "rstrip l = l" by (simp add: rstrip_def)
    ultimately show ?thesis using snoc xs by simp
  qed
qed

lemma read_lines_clean:
  "\<forall>l \<in> set (lines (read_from_fileobj t s)). clean_line l"
  by (auto simp: read_from_fileobj_def invalidate_data_def clean_line_def rstrip_idem
           dest!: readlines_member_newline intro: rstrip_no_newline [THEN notE])

lemma reread_clean:
  assumes "\<forall>l \<in> set (lines s). clean_line l"
  shows "lines (read_from_fileobj (write_to_fileobj s) s') = lines s"
proof -
  from assms have nl: "\<forall>l \<in> set (lines s). CHR 0x0A \<notin> set l" 
    and rs: "\<forall>l \<in> set (lines s). rstrip l = l"
    by (simp_all add: clean_line_def)
  have "map rstrip (map (\<lambda>line. line @ [CHR 0x0A]) (lines s)) = lines s"
    using rs by (simp add: rstrip_append_newline map_idI)
  with readlines_write [OF nl] show ?thesis
    by (simp add: read_from_fileobj_def write_to_fileobj_def invalidate_data_def)
qed

lemma write_to_fileobj_lines: "lines s = lines s' \<Longrightarrow> write_to_fileobj s = write_to_fileobj s'"
  by (simp add: write_to_fileobj_def)

lemma parse_lines_lines: "lines (snd (parse_lines s)) = lines s"
  using parse_lines_frame [of s "fst (parse_lines s)" "snd (parse_lines s)"] by simp

lemma reread_same_object:
  fixes s1 :: wgconfig
  assumes "\<forall>l \<in> set (lines s1). clean_line l"
  shows "read_from_fileobj (write_to_fileobj s1) s1 = invalidate_data s1"
proof -
  from reread_clean [OF assms, of s1]
  have l: "lines (read_from_fileobj (write_to_fileobj s1) s1) = lines s1" .
  then have "map rstrip (readlines (write_to_fileobj s1)) = lines s1"
    by (simp add: read_from_fileobj_def invalidate_data_def)
  then show ?thesis
    by (simp add: read_from_fileobj_def)
qed

text \<open>The first pass normalises: blanks at the end of a line go, the last line gets its newline.\<close>

lemma first_pass_normalises:
  "write_to_fileobj (snd (parse_lines (read_from_fileobj ''[Interface]  '' (wgconfig_init ''PublicKey''))))
     = [CHR ''['', CHR ''I'', CHR ''n'', CHR ''t'', CHR ''e'', CHR ''r'', CHR ''f'', CHR ''a'',
        CHR ''c'', CHR ''e'', CHR '']'', CHR 0x0A]"
  by code_simp

section \<open>The bounds recorded by the parse pass\<close>

lemma section_names_distinct [simp]:
  "SECTION_FIRSTLINE \<noteq> SECTION_LASTLINE" "SECTION_LASTLINE \<noteq> SECTION_FIRSTLINE"
  "SECTION_FIRSTLINE \<noteq> SECTION_RAW" "SECTION_RAW \<noteq> SECTION_FIRSTLINE"
  "SECTION_FIRSTLINE \<noteq> SECTION_DISABLED" "SECTION_DISABLED \<noteq> SECTION_FIRSTLINE"
  "SECTION_LASTLINE \<noteq> SECTION_RAW" "SECTION_RAW \<noteq> SECTION_LASTLINE"
  "SECTION_LASTLINE \<noteq> SECTION_DISABLED" "SECTION_DISABLED \<noteq> SECTION_LASTLINE"
  "SECTION_RAW \<noteq> SECTION_DISABLED" "SECTION_DISABLED \<noteq> SECTION_RAW"
  by (simp_all add: SECTION_FIRSTLINE_def SECTION_LASTLINE_def SECTION_RAW_def SECTION_DISABLED_def)

lemma map_of_collapse:
  "map_of (collapse sd) k =
     map_option (\<lambda>v. if length v > 1 then ListV v else Scalar (hd v)) (map_of sd k)"
  by (induction sd) (auto simp: collapse_def)

lemma map_of_update: "map_of (AList.update k v al) k' = (if k' = k then Some v else map_of al k')"
  by (simp add: AList.update_conv')

lemma py_slice_inside:
  assumes "0 \<le> fi" and "fi \<le> li" and "li < int (length ls)"
  shows "py_slice ls fi (li + 1) = drop (nat fi) (take (nat (li + 1)) ls)"
  using assms by (simp add: py_slice_def slice_bound_def Let_def min_def)

lemma py_slice_hd:
  assumes "0 \<le> fi" and "fi \<le> li" and "li < int (length ls)"
  shows "\<exists>rest. py_slice ls fi (li + 1) = (ls ! nat fi) # rest"
proof -
  from assms have n: "nat fi < length (take (nat (li + 1)) ls)" by auto
  from assms have "take (nat (li + 1)) ls ! nat fi = ls ! nat fi" by auto
  with Cons_nth_drop_Suc [OF n] show ?thesis
    by (metis py_slice_inside [OF assms])
qed

lemma stamp_good:
  assumes "close_ok (int (length ls)) sd" and "stamp ls (collapse sd) = Inr d"
  shows "good_section ls d"
proof -
  from assms(1) obtain f rest l
    where F: "map_of sd SECTION_FIRSTLINE = Some (I f # rest)"
      and L: "map_of sd SECTION_LASTLINE = Some [I l]"
      and b: "0 \<le> f" "f \<le> l" "l < int (length ls)"
    by (auto simp: close_ok_def)
  from L have cl: "map_of (collapse sd) SECTION_LASTLINE = Some (Scalar (I l))"
    by (simp add: map_of_collapse)
  from F assms(2) cl have cf: "map_of (collapse sd) SECTION_FIRSTLINE = Some (Scalar (I f))"
    by (auto simp: map_of_collapse stamp_def dict_get_def split: if_splits)
  from py_slice_hd [OF b] obtain tl0 where sl: "py_slice ls f (l + 1) = (ls ! nat f) # tl0"
    by blast
  from assms(2) cf cl sl
  have d: "d = AList.update SECTION_DISABLED (BoolV (startswith (ls ! nat f) marker))
                 (AList.update SECTION_RAW (ListV (map S (py_slice ls f (l + 1)))) (collapse sd))"
    by (simp add: stamp_def dict_get_def Let_def)
  show ?thesis
    unfolding good_section_def
    by (rule exI [of _ f], rule exI [of _ l]) (simp add: d map_of_update cf cl b)
qed

lemma close_section_good:
  assumes g: "cache_good s" and c: "sec \<noteq> None \<longrightarrow> close_ok (int (length (lines s))) sd"
    and r: "close_section sec sd s = (Inr u, s')"
  shows "cache_good s'"
proof (cases sec)
  case None
  with r g show ?thesis by (auto simp: close_section_def Let_def split: if_splits)
next
  case (Some x)
  with c have ok: "close_ok (int (length (lines s))) sd" by simp
  from r Some obtain d where st: "stamp (lines s) (collapse sd) = Inr d"
    by (auto simp: close_section_def Let_def split: if_splits sum.splits option.splits pyval.splits)
  from stamp_good [OF ok st] have gd: "good_section (lines s) d" .
  show ?thesis
  proof (cases "x = ''interface''")
    case True
    with r Some st have "s' = s\<lparr>priv_interface := Some d\<rparr>"
      by (auto simp: close_section_def Let_def split: if_splits)
    with g gd show ?thesis by (simp add: cache_good_def)
  next
    case False
    with r Some st obtain k ps where "priv_peers s = Some ps"
      and "s' = s\<lparr>priv_peers := Some (AList.update k d ps)\<rparr>"
      by (auto simp: close_section_def Let_def split: if_splits option.splits pyval.splits)
    with g gd show ?thesis by (auto simp: cache_good_def map_of_update split: if_splits)
  qed
qed

lemma sd_inv_close_ok:
  assumes "sd_inv i sd le" and "i \<le> n" and "\<forall>e. le = Some e \<longrightarrow> e < i"
  shows "close_ok n (case le of None \<Rightarrow> sd | Some e \<Rightarrow> AList.update SECTION_LASTLINE [I (e - 1)] sd)"
proof -
  from assms(1) obtain f rest l
    where F: "map_of sd SECTION_FIRSTLINE = Some (I f # rest)"
      and L: "map_of sd SECTION_LASTLINE = Some [I l]"
      and b: "0 \<le> f" "f \<le> l" "l < i" and e: "\<forall>e. le = Some e \<longrightarrow> f < e"
    by (auto simp: sd_inv_def)
  show ?thesis
  proof (cases le)
    case None
    with F L b assms(2) show ?thesis by (auto simp: close_ok_def)
  next
    case (Some e0)
    show ?thesis
      unfolding close_ok_def Some option.case
    proof (intro exI conjI)
      show "map_of (AList.update SECTION_LASTLINE [I (e0 - 1)] sd) SECTION_FIRSTLINE = Some (I f # rest)"
        using F by (simp add: map_of_update)
      show "map_of (AList.update SECTION_LASTLINE [I (e0 - 1)] sd) SECTION_LASTLINE = Some [I (e0 - 1)]"
        by (simp add: map_of_update)
      show "0 \<le> f" by (rule b)
      show "f \<le> e0 - 1" using e Some by auto
      show "e0 - 1 < n" using assms(2,3) Some by auto
    qed
  qed
qed

lemma parse_step_inv:
  assumes inv: "loop_inv i st" and i: "0 \<le> i"
    and r: "parse_step i raw st s = (Inr st', s')"
  shows "loop_inv (i + 1) st'"
proof -
  obtain sec sd le where st: "st = (sec, sd, le)" by (cases st)
  from inv st have le: "\<forall>e. le = Some e \<longrightarrow> - 1 \<le> e \<and> e < i"
    and sdi: "sec \<noteq> None \<longrightarrow> sd_inv i sd le"
    by (auto simp: loop_inv_def)
  have upd: "\<And>sd0. sd_inv i sd0 le \<Longrightarrow> sd_inv (i + 1) (AList.update SECTION_LASTLINE [I i] sd0) le"
  proof -
    fix sd0 assume "sd_inv i sd0 le"
    then obtain f rest l
      where F: "map_of sd0 SECTION_FIRSTLINE = Some (I f # rest)"
        and b: "0 \<le> f" "f \<le> l" "l < i" and e: "\<forall>e. le = Some e \<longrightarrow> f < e"
      by (auto simp: sd_inv_def)
    show "sd_inv (i + 1) (AList.update SECTION_LASTLINE [I i] sd0) le"
      unfolding sd_inv_def
    proof (intro exI conjI)
      show "map_of (AList.update SECTION_LASTLINE [I i] sd0) SECTION_FIRSTLINE = Some (I f # rest)"
        using F by (simp add: map_of_update)
      show "map_of (AList.update SECTION_LASTLINE [I i] sd0) SECTION_LASTLINE = Some [I i]"
        by (simp add: map_of_update)
      show "0 \<le> f" by (rule b)
      show "f \<le> i" using b by simp
      show "i < i + 1" by simp
      show "\<forall>e. le = Some e \<longrightarrow> f < e" by (rule e)
    qed
  qed
  consider (blank) "view raw = []"
    | (header) "view raw \<noteq> []" "startswith (view raw) ''[''"
    | (comment) "view raw \<noteq> []" "\<not> startswith (view raw) ''[''" "startswith (view raw) ''#''"
    | (regular) "view raw \<noteq> []" "\<not> startswith (view raw) ''[''" "\<not> startswith (view raw) ''#''"
    by blast
  then show ?thesis
  proof cases
    case blank
    with r st have st': "st' = (sec, sd, Some i)" by (simp add: parse_step_blank)
    have "sec \<noteq> None \<longrightarrow> sd_inv (i + 1) sd (Some i)"
    proof
      assume "sec \<noteq> None"
      with sdi have "sd_inv i sd le" by simp
      then show "sd_inv (i + 1) sd (Some i)" by (auto simp: sd_inv_def)
    qed
    with st' i show ?thesis by (simp add: loop_inv_def)
  next
    case header
    let ?f = "case le of None \<Rightarrow> i | Some e \<Rightarrow> e + 1"
    from r st header
    have st': "st' = (Some (header_name (view raw)),
                      AList.update SECTION_LASTLINE [I i] [(SECTION_FIRSTLINE, [I ?f])], None)"
      by (auto simp: parse_step_header split: prod.splits sum.splits if_splits)
    from le i have f: "0 \<le> ?f" "?f \<le> i" by (auto split: option.splits)
    have "sd_inv (i + 1) (AList.update SECTION_LASTLINE [I i] [(SECTION_FIRSTLINE, [I ?f])]) None"
      unfolding sd_inv_def
    proof (intro exI conjI)
      show "map_of (AList.update SECTION_LASTLINE [I i] [(SECTION_FIRSTLINE, [I ?f])]) SECTION_FIRSTLINE
            = Some (I ?f # [])"
        by (simp add: map_of_update)
      show "map_of (AList.update SECTION_LASTLINE [I i] [(SECTION_FIRSTLINE, [I ?f])]) SECTION_LASTLINE
            = Some [I i]"
        by (simp add: map_of_update)
      show "0 \<le> ?f" by (rule f)
      show "?f \<le> i" by (rule f)
      show "i < i + 1" by simp
      show "\<forall>e. None = Some e \<longrightarrow> ?f < e" by simp
    qed
    with st' show ?thesis by (simp add: loop_inv_def)
  next
    case comment
    with r st have st': "st' = (sec, AList.update SECTION_LASTLINE [I i] sd, le)"
      by (simp add: parse_step_comment)
    from sdi upd have "sec \<noteq> None \<longrightarrow> sd_inv (i + 1) (AList.update SECTION_LASTLINE [I i] sd) le"
      by blast
    with st' le show ?thesis by (auto simp: loop_inv_def)
  next
    case regular
    with r st obtain attr vals c where pl: "parse_line (view raw) = Inr (attr, vals, c)"
      and st': "st' = (sec, AList.update SECTION_LASTLINE [I i]
                  (AList.update attr ((case map_of sd attr of None \<Rightarrow> [] | Some v \<Rightarrow> v) @ vals) sd), le)"
      by (auto simp: parse_step_regular split: sum.splits prod.splits)
    let ?sd1 = "AList.update attr ((case map_of sd attr of None \<Rightarrow> [] | Some v \<Rightarrow> v) @ vals) sd"
    have "sec \<noteq> None \<longrightarrow> sd_inv (i + 1) (AList.update SECTION_LASTLINE [I i] ?sd1) le"
    proof
      assume "sec \<noteq> None"
      with sdi have "sd_inv i sd le" by simp
      then obtain f rest l
        where F: "map_of sd SECTION_FIRSTLINE = Some (I f # rest)"
          and L: "map_of sd SECTION_LASTLINE = Some [I l]"
          and b: "0 \<le> f" "f \<le> l" "l < i" and e: "\<forall>e. le = Some e \<longrightarrow> f < e"
        by (auto simp: sd_inv_def)
      have F1: "\<exists>rest'. map_of ?sd1 SECTION_FIRSTLINE = Some (I f # rest')"
        using F by (auto simp: map_of_update)
      then obtain rest' where F1': "map_of ?sd1 SECTION_FIRSTLINE = Some (I f # rest')" by blast
      show "sd_inv (i + 1) (AList.update SECTION_LASTLINE [I i] ?sd1) le"
        unfolding sd_inv_def
      proof (intro exI conjI)
        show "map_of (AList.update SECTION_LASTLINE [I i] ?sd1) SECTION_FIRSTLINE = Some (I f # rest')"
          using F1' by (simp add: map_of_update)
        show "map_of (AList.update SECTION_LASTLINE [I i] ?sd1) SECTION_LASTLINE = Some [I i]"
          by (simp add: map_of_update)
        show "0 \<le> f" by (rule b)
        show "f \<le> i" using b by simp
        show "i < i + 1" by simp
        show "\<forall>e. le = Some e \<longrightarrow> f < e" by (rule e)
      qed
    qed
    with st' le show ?thesis by (auto simp: loop_inv_def)
  qed
qed

lemma parse_step_good:
  assumes inv: "loop_inv i st" and i: "i < int (length (lines s))"
    and g: "cache_good s" and r: "parse_step i raw st s = (Inr st', s')"
  shows "cache_good s'"
proof -
  obtain sec sd le where st: "st = (sec, sd, le)" by (cases st)
  from inv st have le: "\<forall>e. le = Some e \<longrightarrow> e < i"
    and sdi: "sec \<noteq> None \<longrightarrow> sd_inv i sd le"
    by (auto simp: loop_inv_def)
  consider (blank) "view raw = []"
    | (header) "view raw \<noteq> []" "startswith (view raw) ''[''"
    | (comment) "view raw \<noteq> []" "\<not> startswith (view raw) ''[''" "startswith (view raw) ''#''"
    | (regular) "view raw \<noteq> []" "\<not> startswith (view raw) ''[''" "\<not> startswith (view raw) ''#''"
    by blast
  then show ?thesis
  proof cases
    case blank
    with r st g show ?thesis by (simp add: parse_step_blank)
  next
    case header
    let ?sd = "case le of None \<Rightarrow> sd | Some e \<Rightarrow> AList.update SECTION_LASTLINE [I (e - 1)] sd"
    from r st header obtain u where cs: "close_section sec ?sd s = (Inr u, s')"
      by (auto simp: parse_step_header split: prod.splits sum.splits if_splits)
    have "sec \<noteq> None \<longrightarrow> close_ok (int (length (lines s))) ?sd"
      using sdi le i by (auto intro!: sd_inv_close_ok [of i])
    from close_section_good [OF g this cs] show ?thesis .
  next
    case comment
    with r st g show ?thesis by (simp add: parse_step_comment)
  next
    case regular
    with r st g show ?thesis
      by (auto simp: parse_step_regular split: sum.splits prod.splits)
  qed
qed

lemma parse_loop_good:
  assumes "loop_inv i st" and "0 \<le> i" and "i + int (length ls) = int (length (lines s))"
    and "cache_good s" and "parse_loop i ls st s = (Inr st', s')"
  shows "cache_good s' \<and> loop_inv (int (length (lines s))) st'"
  using assms
proof (induction ls arbitrary: i st s)
  case Nil
  then show ?case by simp
next
  case (Cons raw rest)
  obtain r1 s1 where step: "parse_step i raw st s = (r1, s1)"
    by (cases "parse_step i raw st s")
  with Cons.prems(5) obtain st1 where r1: "r1 = Inr st1"
    by (cases r1) auto
  with step Cons.prems(5) have loop: "parse_loop (i + 1) rest st1 s1 = (Inr st', s')"
    by simp
  from step r1 have step': "parse_step i raw st s = (Inr st1, s1)" by simp
  from Cons.prems(3) have lt: "i < int (length (lines s))" by simp
  from parse_step_frame [OF step'] have fr: "lines s1 = lines s" by simp
  have inv1: "loop_inv (i + 1) st1"
    by (rule parse_step_inv [OF Cons.prems(1) Cons.prems(2) step'])
  have g1: "cache_good s1"
    by (rule parse_step_good [OF Cons.prems(1) lt Cons.prems(4) step'])
  have len: "i + 1 + int (length rest) = int (length (lines s1))"
    using Cons.prems(3) fr by simp
  from Cons.prems(2) have i1: "0 \<le> i + 1" by simp
  from Cons.IH [OF inv1 i1 len g1 loop] fr show ?case by simp
qed

lemma parse_lines_good:
  assumes "parse_lines s = (Inr u, s')"
  shows "cache_good s'"
proof -
  let ?s0 = "s\<lparr>priv_interface := Some [], priv_peers := Some []\<rparr>"
  obtain r1 s1 where loop: "parse_loop 0 (lines ?s0) (None, [], Some (- 1)) ?s0 = (r1, s1)"
    by (cases "parse_loop 0 (lines ?s0) (None, [], Some (- 1)) ?s0")
  with assms obtain sec sd le where r1: "r1 = Inr (sec, sd, le)"
    by (cases r1) (auto simp: parse_lines_def)
  with loop assms have cs: "close_section sec sd s1 = (Inr u, s')"
    by (simp add: parse_lines_def)
  have g0: "cache_good ?s0" by (simp add: cache_good_def)
  have inv0: "loop_inv 0 (None, [], Some (- 1))" by (simp add: loop_inv_def)
  have len: "0 + int (length (lines ?s0)) = int (length (lines ?s0))" by simp
  from loop r1 have loop': "parse_loop 0 (lines ?s0) (None, [], Some (- 1)) ?s0 = (Inr (sec, sd, le), s1)"
    by simp
  from parse_loop_good [OF inv0 _ len g0 loop']
  have g1: "cache_good s1" and inv1: "loop_inv (int (length (lines ?s0))) (sec, sd, le)"
    by simp_all
  from parse_loop_frame [OF loop'] have fr: "lines s1 = lines ?s0" by simp
  have "sec \<noteq> None \<longrightarrow> close_ok (int (length (lines s1))) sd"
    using inv1 fr by (auto simp: loop_inv_def sd_inv_def close_ok_def)
  from close_section_good [OF g1 this cs] show ?thesis .
qed

lemma peers_good:
  assumes "cache_valid s" and "peers s = (Inr ps, s1)" and "map_of ps k = Some d"
  shows "good_section (lines s) d"
proof -
  from peers_cache_valid [OF assms(1,2)]
  have p: "parse_lines s1 = (Inr (), s1)" and b: "priv_peers s1 = Some ps" and l: "lines s1 = lines s"
    by simp_all
  from parse_lines_good [OF p] b assms(3) l show ?thesis
    by (auto simp: cache_good_def)
qed

lemma interface_good:
  assumes "cache_valid s" and "interface s = (Inr d, s1)" and "d \<noteq> []"
  shows "good_section (lines s) d"
proof -
  from interface_cache_valid [OF assms(1,2)]
  have p: "parse_lines s1 = (Inr (), s1)" and b: "priv_interface s1 = Some d" and l: "lines s1 = lines s"
    by simp_all
  from parse_lines_good [OF p] b assms(3) l show ?thesis
    by (auto simp: cache_good_def)
qed

text \<open>The bounds that the operations get for a section, on valid records.\<close>

lemma get_sectioninfo_good:
  assumes "cache_valid s" and "get_sectioninfo key s = (Inr (f, l), s1)"
  shows "\<exists>fi li. f = Scalar (I fi) \<and> l = Scalar (I li) \<and> 0 \<le> fi \<and> fi \<le> li
           \<and> li < int (length (lines s)) \<and> lines s1 = lines s \<and> keyattr s1 = keyattr s
           \<and> parse_lines s = (Inr (), s1)"
proof (cases key)
  case None
  with assms(2) obtain d where i: "interface s = (Inr d, s1)"
    and f: "dict_get d SECTION_FIRSTLINE = Inr f" and l: "dict_get d SECTION_LASTLINE = Inr l"
    by (auto simp: get_sectioninfo_def split: prod.splits sum.splits)
  from f have "d \<noteq> []" by (auto simp: dict_get_def)
  from interface_good [OF assms(1) i this] f l interface_cache_valid [OF assms(1) i]
  show ?thesis by (auto simp: good_section_def dict_get_def)
next
  case (Some a)
  with assms(2) obtain ps d where p: "peers s = (Inr ps, s1)" and m: "map_of ps key = Some d"
    and f: "dict_get d SECTION_FIRSTLINE = Inr f" and l: "dict_get d SECTION_LASTLINE = Inr l"
    by (auto simp: get_sectioninfo_def split: prod.splits sum.splits option.splits)
  from peers_good [OF assms(1) p m] f l peers_cache_valid [OF assms(1) p]
  show ?thesis by (auto simp: good_section_def dict_get_def)
qed

section \<open>Adding an attribute\<close>

lemma py_get_inside: "0 \<le> j \<Longrightarrow> j < int (length ls) \<Longrightarrow> py_get ls j = Inr (ls ! nat j)"
  by (simp add: py_get_def norm_index_def)

lemma py_set_inside: "0 \<le> j \<Longrightarrow> j < int (length ls) \<Longrightarrow> py_set ls j x = Inr (ls[nat j := x])"
  by (simp add: py_set_def norm_index_def)

lemma py_del_inside:
  "0 \<le> j \<Longrightarrow> j < int (length ls) \<Longrightarrow> py_del ls j = Inr (take (nat j) ls @ drop (Suc (nat j)) ls)"
  by (simp add: py_del_def norm_index_def)

lemma py_insert_inside:
  "0 \<le> j \<Longrightarrow> j \<le> int (length ls) \<Longrightarrow> py_insert ls j x = insert_at (nat j) x ls"
  by (simp add: py_insert_def insert_at_def slice_bound_def Let_def min_def)

lemma find_attr_spec:
  assumes "\<forall>j \<in> set js. 0 \<le> j \<and> j < int (length ls) \<and> attr_at ls j \<noteq> None"
  shows "find_attr ls attr js acc =
           Inr (case filter (\<lambda>j. attr_at ls j = Some attr) js of
                  [] \<Rightarrow> acc
                | m # ms \<Rightarrow> Some (last (m # ms)))"
  using assms
proof (induction js arbitrary: acc)
  case Nil
  then show ?case by simp
next
  case (Cons j js)
  from Cons.prems have j: "0 \<le> j" "j < int (length ls)" and d: "attr_at ls j \<noteq> None"
    and rest: "\<forall>j \<in> set js. 0 \<le> j \<and> j < int (length ls) \<and> attr_at ls j \<noteq> None"
    by simp_all
  from d obtain a vs c where pl: "parse_line (ls ! nat j) = Inr (a, vs, c)"
    by (auto simp: attr_at_def split: sum.splits)
  then have at: "attr_at ls j = Some a" by (simp add: attr_at_def)
  show ?case
    using Cons.IH [OF rest] pl at j
    by (auto simp: py_get_inside split: list.splits)
qed

lemma last_match_range:
  assumes "last_match ls attr fi li = Some m"
  shows "fi < m \<and> m \<le> li \<and> attr_at ls m = Some attr"
proof -
  let ?ms = "filter (\<lambda>j. attr_at ls j = Some attr) [fi + 1..li]"
  from assms have ne: "?ms \<noteq> []" and m: "m = last ?ms"
    by (auto simp: last_match_def split: list.splits)
  from last_in_set [OF ne] m have "m \<in> set ?ms" by simp
  then show ?thesis by auto
qed

lemma length_insert_at [simp]: "length (insert_at pos x ls) = Suc (length ls)"
  by (simp add: insert_at_def)

section \<open>Deleting an attribute\<close>

lemma comment_run_step:
  assumes "0 < n" and "n < length ls"
  shows "comment_run ls (Suc n) = (if is_comment_line (ls ! n) then Suc (comment_run ls n) else 0)"
proof -
  from assms have "take (Suc n) ls = take n ls @ [ls ! n]"
    by (simp add: take_Suc_conv_app_nth)
  moreover from assms have "take n ls \<noteq> []" by auto
  ultimately have "drop 1 (take (Suc n) ls) = drop 1 (take n ls) @ [ls ! n]"
    by (cases "take n ls") simp_all
  then show ?thesis by (simp add: comment_run_def)
qed

lemma comment_run_le: "comment_run ls m \<le> m - 1"
proof -
  have "comment_run ls m \<le> length (rev (drop 1 (take m ls)))"
    unfolding comment_run_def by (rule length_takeWhile_le)
  then show ?thesis by simp
qed

lemma comment_run_take: "take m ls' = take m ls \<Longrightarrow> comment_run ls' m = comment_run ls m"
  by (simp add: comment_run_def)

lemma comment_scan_effect:
  assumes "i < int (length ls)"
  shows "comment_scan i ls =
           (Inr (), take (nat (i + 1) - comment_run ls (nat (i + 1))) ls @ drop (nat (i + 1)) ls)"
  using assms
proof (induction i ls rule: comment_scan.induct)
  case (1 i ls)
  show ?case
  proof (cases "i > 0")
    case False
    then have "nat (i + 1) \<le> 1" by simp
    then have "comment_run ls (nat (i + 1)) = 0"
      using comment_run_le [of ls "nat (i + 1)"] by simp
    with False show ?thesis
      by (subst comment_scan.simps) simp
  next
    case True
    let ?n = "nat i"
    from True "1.prems" have n: "0 < ?n" "?n < length ls" by simp_all
    from True "1.prems" have g: "py_get ls i = Inr (ls ! ?n)" by (simp add: py_get_inside)
    from True have s: "nat (i + 1) = Suc ?n" by simp
    show ?thesis
    proof (cases "is_comment_line (ls ! ?n)")
      case False
      with g True n show ?thesis
        by (subst comment_scan.simps, fold is_comment_line_def) (simp add: s comment_run_step)
    next
      case c: True
      let ?ls' = "take ?n ls @ drop (Suc ?n) ls"
      from True "1.prems" have dl: "py_del ls i = Inr ?ls'" by (simp add: py_del_inside)
      from n have len: "i - 1 < int (length ?ls')" by auto
      from c have c': "length (ls ! ?n) \<noteq> 0 \<and> hd (ls ! ?n) = CHR ''#''"
        by (simp add: is_comment_line_def)
      have ih: "comment_scan (i - 1) ?ls' =
           (Inr (), take (nat (i - 1 + 1) - comment_run ?ls' (nat (i - 1 + 1))) ?ls' @ drop (nat (i - 1 + 1)) ?ls')"
        by (rule "1.IH" [OF True g c' dl len])
      have tk: "take ?n ?ls' = take ?n ls" using n by simp
      have cr: "comment_run ?ls' ?n = comment_run ls ?n" by (rule comment_run_take [OF tk])
      have dr: "drop ?n ?ls' = drop (Suc ?n) ls" using n by simp
      have t2: "take (?n - comment_run ls ?n) ?ls' = take (?n - comment_run ls ?n) ls"
        using n by simp
      from True have "nat (i - 1 + 1) = ?n" by simp
      with ih cr dr t2 have "comment_scan (i - 1) ?ls' =
           (Inr (), take (?n - comment_run ls ?n) ls @ drop (Suc ?n) ls)"
        by simp
      with g dl True n c show ?thesis
        by (subst comment_scan.simps, fold is_comment_line_def) (simp add: s comment_run_step)
    qed
  qed
qed

lemma concat_readlines: "concat (readlines t) = t"
proof (induction t)
  case Nil
  then show ?case by simp
next
  case (Cons c cs)
  then show ?case by (cases "readlines cs") auto
qed

lemma normal_line_rstrip: "normal_line l \<Longrightarrow> rstrip l @ [CHR 0x0A] = l"
proof -
  assume n: "normal_line l"
  then have l: "l = butlast l @ [CHR 0x0A]"
    by (metis append_butlast_last_id normal_line_def)
  then have "rstrip l = rstrip (butlast l)"
    by (metis rstrip_append_newline)
  with n l show ?thesis by (simp add: normal_line_def)
qed

lemma written_text:
  "write_to_fileobj (read_from_fileobj t s) = concat (map (\<lambda>l. rstrip l @ [CHR 0x0A]) (readlines t))"
  by (simp add: write_to_fileobj_def read_from_fileobj_def invalidate_data_def comp_def)

lemma write_read_normal:
  assumes "normal_text t"
  shows "write_to_fileobj (read_from_fileobj t s) = t"
proof -
  from assms have "map (\<lambda>l. rstrip l @ [CHR 0x0A]) (readlines t) = readlines t"
    by (auto simp: normal_text_def list_all_iff normal_line_rstrip intro: map_idI)
  then show ?thesis by (simp add: written_text concat_readlines)
qed

lemma write_clean_normal:
  assumes "\<forall>l \<in> set (lines s). clean_line l"
  shows "normal_text (write_to_fileobj s)"
proof -
  from assms have nl: "\<forall>l \<in> set (lines s). CHR 0x0A \<notin> set l" by (simp add: clean_line_def)
  from assms have "\<forall>l \<in> set (lines s). normal_line (l @ [CHR 0x0A])"
    by (simp add: clean_line_def normal_line_def)
  with readlines_write [OF nl] show ?thesis
    by (simp add: normal_text_def write_to_fileobj_def list_all_iff)
qed

lemma add_attr_decodable:
  assumes v: "cache_valid s"
    and g: "get_sectioninfo key s = (Inr (Scalar (I fi), Scalar (I li)), s1)"
    and c: "check_comment lc = Inr ()"
    and d: "\<forall>j. fi < j \<and> j \<le> li \<longrightarrow> attr_at (lines s) j \<noteq> None"
  shows "\<exists>s'. add_attr key attr v' lc app s = (Inr (), s')
              \<and> lines s' = add_attr_spec (lines s) fi li attr v' lc app"
proof -
  let ?ls = "lines s"
  from get_sectioninfo_good [OF v g]
  have b: "0 \<le> fi" "fi \<le> li" "li < int (length ?ls)" and l1: "lines s1 = ?ls"
    by simp_all
  have rng: "\<forall>j \<in> set [fi + 1..li]. 0 \<le> j \<and> j < int (length ?ls) \<and> attr_at ?ls j \<noteq> None"
    using b d by auto
  have fa: "find_attr ?ls attr [fi + 1..li] None = Inr (last_match ?ls attr fi li)"
    by (simp add: find_attr_spec [OF rng] last_match_def split: list.split)
  show ?thesis
  proof (cases "last_match ?ls attr fi li")
    case None
    show ?thesis
      using g c None fa l1 b
      by (simp add: add_attr_def add_attr_spec_def with_leading_comment_def invalidate_data_def
                    Let_def py_insert_inside nat_add_distrib split: option.split)
  next
    case (Some m)
    from last_match_range [OF Some] have mr: "fi < m" "m \<le> li" by simp_all
    with b have mb: "0 \<le> m" "m < int (length ?ls)" by simp_all
    show ?thesis
    proof (cases app)
      case True
      show ?thesis
        using g c Some True fa l1 mb
        by (simp add: add_attr_def add_attr_spec_def with_leading_comment_def invalidate_data_def
                      Let_def py_insert_inside nat_add_distrib split: option.split)
    next
      case False
      from d mr obtain a vs cm where pl: "parse_line (?ls ! nat m) = Inr (a, vs, cm)"
        by (fastforce simp: attr_at_def split: sum.splits)
      show ?thesis
        using g c Some False fa l1 pl mb
        by (simp add: add_attr_def add_attr_spec_def with_leading_comment_def invalidate_data_def
                      Let_def py_insert_inside py_get_inside py_set_inside encode_line_def
                 split: option.split)
    qed
  qed
qed

lemma parse_line_error: "parse_line l = Inl e \<Longrightarrow> e = ValueError"
  by (auto simp: parse_line_def int_of_str_def Let_def split: prod.splits if_splits sum.splits)

lemma find_attr_fails:
  assumes "\<forall>j \<in> set js. 0 \<le> j \<and> j < int (length ls)"
    and "\<exists>j \<in> set js. attr_at ls j = None"
  shows "find_attr ls attr js acc = Inl ValueError"
  using assms
proof (induction js arbitrary: acc)
  case Nil
  then show ?case by simp
next
  case (Cons j js)
  from Cons.prems(1) have j: "0 \<le> j" "j < int (length ls)"
    and rest: "\<forall>j \<in> set js. 0 \<le> j \<and> j < int (length ls)"
    by simp_all
  show ?case
  proof (cases "parse_line (ls ! nat j)")
    case (Inl e)
    with parse_line_error [OF Inl] j show ?thesis by (simp add: py_get_inside)
  next
    case (Inr r)
    then have "attr_at ls j \<noteq> None" by (auto simp: attr_at_def split: prod.splits)
    with Cons.prems(2) have "\<exists>j \<in> set js. attr_at ls j = None" by auto
    from Cons.IH [OF rest this] Inr j show ?thesis
      by (auto simp: py_get_inside split: prod.splits)
  qed
qed

lemma parse_loop_append:
  "parse_loop i (xs @ ys) st s =
     (case parse_loop i xs st s of
        (Inl err, s') \<Rightarrow> (Inl err, s')
      | (Inr st', s') \<Rightarrow> parse_loop (i + int (length xs)) ys st' s')"
proof (induction xs arbitrary: i st s)
  case Nil
  then show ?case by simp
next
  case (Cons raw rest)
  have e: "i + 1 + int (length rest) = i + int (length (raw # rest))" by simp
  show ?case
    by (simp add: Cons.IH e add.assoc split: prod.split sum.split)
qed


lemma startswith_nonempty: "startswith v ''['' \<Longrightarrow> v \<noteq> []"
  by (auto simp: startswith_def)

lemma parse_step_state:
  "snd (parse_step i raw st s) = s \<or> (\<exists>sec sd. snd (parse_step i raw st s) = snd (close_section sec sd s))"
proof -
  obtain sec sd le where st: "st = (sec, sd, le)" by (cases st)
  consider (blank) "view raw = []"
    | (header) "view raw \<noteq> []" "startswith (view raw) ''[''"
    | (comment) "view raw \<noteq> []" "\<not> startswith (view raw) ''[''" "startswith (view raw) ''#''"
    | (regular) "view raw \<noteq> []" "\<not> startswith (view raw) ''[''" "\<not> startswith (view raw) ''#''"
    by blast
  then show ?thesis
  proof cases
    case blank
    with st show ?thesis by (simp add: parse_step_blank)
  next
    case header
    let ?sd = "case le of None \<Rightarrow> sd | Some e \<Rightarrow> AList.update SECTION_LASTLINE [I (e - 1)] sd"
    have "snd (parse_step i raw st s) = snd (close_section sec ?sd s)"
      using header st by (auto simp: parse_step_header split: prod.splits sum.splits if_splits)
    then show ?thesis by blast
  next
    case comment
    with st show ?thesis by (simp add: parse_step_comment)
  next
    case regular
    with st show ?thesis
      by (auto simp: parse_step_regular split: prod.splits sum.splits)
  qed
qed

lemma parse_loop_lift:
  assumes c: "\<And>sec sd s. Q s \<Longrightarrow> Q (snd (close_section sec sd s))"
  shows "Q s \<Longrightarrow> Q (snd (parse_loop i ls st s))"
proof (induction ls arbitrary: i st s)
  case Nil
  then show ?case by simp
next
  case (Cons raw rest)
  from parse_step_state [of i raw st s] c [OF Cons.prems] Cons.prems
  have "Q (snd (parse_step i raw st s))" by auto
  from Cons.IH [OF this] this show ?case
    by (auto split: prod.splits sum.splits)
qed

lemma stamp_keeps_none:
  assumes "stamp ls sd = Inr d" and "map_of sd k = None" and "k \<noteq> SECTION_RAW" and "k \<noteq> SECTION_DISABLED"
  shows "map_of d k = None"
  using assms
  by (auto simp: stamp_def Let_def update_conv' split: sum.splits pyval.splits atom.splits list.splits)

lemma close_section_has_none: "has_none s \<Longrightarrow> has_none (snd (close_section sec sd s))"
  by (auto simp: close_section_def has_none_def Let_def update_conv' split: option.split sum.split pyval.split)

lemma close_section_none_keyless:
  assumes "keyattr s \<noteq> SECTION_RAW" and "keyattr s \<noteq> SECTION_DISABLED"
  shows "none_keyless s \<Longrightarrow> none_keyless (snd (close_section sec sd s))"
  using assms
  by (auto simp: close_section_def none_keyless_def Let_def update_conv'
           split: option.split sum.split pyval.split if_splits dest: stamp_keeps_none)


lemma parse_lines_none_keyless:
  assumes k: "keyattr s \<noteq> SECTION_RAW" "keyattr s \<noteq> SECTION_DISABLED"
  shows "none_keyless (snd (parse_lines s))"
proof -
  let ?Q = "\<lambda>t. keyattr t = keyattr s \<and> none_keyless t"
  let ?s0 = "s\<lparr>priv_interface := Some [], priv_peers := Some []\<rparr>"
  have c: "\<And>sec sd t. ?Q t \<Longrightarrow> ?Q (snd (close_section sec sd t))"
    using k close_section_none_keyless close_section_keyattr by auto
  have q0: "?Q ?s0" by (simp add: none_keyless_def)
  have "?Q (snd (parse_loop 0 (lines ?s0) (None, [], Some (- 1)) ?s0))"
    by (rule parse_loop_lift [where Q = ?Q, OF c q0])
  with c show ?thesis
    by (auto simp: parse_lines_def split: prod.splits sum.splits)
qed

lemma parse_loop_has_none: "has_none s \<Longrightarrow> has_none (snd (parse_loop i ls st s))"
  by (rule parse_loop_lift [where Q = has_none]) (rule close_section_has_none)

lemma parse_loop_body:
  assumes "list_all (no_attr_line k) body" and "map_of sd k = None" and "k \<noteq> SECTION_LASTLINE"
    and "parse_loop i body (sec, sd, le) s = (Inr st', s')"
  shows "\<exists>sd' le'. st' = (sec, sd', le') \<and> map_of sd' k = None \<and> s' = s"
  using assms
proof (induction body arbitrary: i sd le)
  case Nil
  then show ?case by auto
next
  case (Cons raw rest)
  from Cons.prems(1) have n: "no_attr_line k raw" and r: "list_all (no_attr_line k) rest" by simp_all
  consider (blank) "view raw = []"
    | (header) "view raw \<noteq> []" "startswith (view raw) ''[''"
    | (comment) "view raw \<noteq> []" "\<not> startswith (view raw) ''[''" "startswith (view raw) ''#''"
    | (regular) "view raw \<noteq> []" "\<not> startswith (view raw) ''[''" "\<not> startswith (view raw) ''#''"
    by blast
  then show ?case
  proof cases
    case blank
    with Cons.prems(4) have "parse_loop (i + 1) rest (sec, sd, Some i) s = (Inr st', s')"
      by (simp add: parse_step_blank)
    from Cons.IH [OF r Cons.prems(2,3) this] show ?thesis .
  next
    case header
    with n show ?thesis by (simp add: no_attr_line_def)
  next
    case comment
    with Cons.prems(4)
    have p: "parse_loop (i + 1) rest (sec, AList.update SECTION_LASTLINE [I i] sd, le) s = (Inr st', s')"
      by (simp add: parse_step_comment)
    from Cons.prems(2,3) have "map_of (AList.update SECTION_LASTLINE [I i] sd) k = None"
      by (simp add: update_conv')
    from Cons.IH [OF r this Cons.prems(3) p] show ?thesis .
  next
    case regular
    with n obtain attr vs c where pl: "parse_line (view raw) = Inr (attr, vs, c)" and a: "attr \<noteq> k"
      by (auto simp: no_attr_line_def split: sum.splits)
    let ?sd = "AList.update SECTION_LASTLINE [I i]
                 (AList.update attr ((case map_of sd attr of None \<Rightarrow> [] | Some v \<Rightarrow> v) @ vs) sd)"
    from Cons.prems(4) regular pl
    have p: "parse_loop (i + 1) rest (sec, ?sd, le) s = (Inr st', s')"
      by (simp add: parse_step_regular)
    from Cons.prems(2,3) a have "map_of ?sd k = None"
      by (simp add: update_conv')
    from Cons.IH [OF r this Cons.prems(3) p] show ?thesis .
  qed
qed

lemma map_of_collapse_none: "map_of (collapse sd) k = None \<longleftrightarrow> map_of sd k = None"
  by (simp add: map_of_collapse)

lemma keyless_stored:
  assumes L: "lines s = pre @ hdr # body @ rest"
    and K: "keyless_peer (keyattr s) hdr body rest"
    and k: "keyattr s \<noteq> SECTION_FIRSTLINE" "keyattr s \<noteq> SECTION_LASTLINE"
    and P: "parse_lines s = (Inr u, s')"
  shows "has_none s'"
proof -
  let ?k = "keyattr s"
  let ?s0 = "s\<lparr>priv_interface := Some [], priv_peers := Some []\<rparr>"
  let ?n = "int (length pre)"
  from K have v: "view hdr \<noteq> []" "startswith (view hdr) ''[''"
    and hn: "header_name (view hdr) = ''peer''"
    and B: "list_all (no_attr_line ?k) body"
    and R: "case rest of [] \<Rightarrow> True | raw # _ \<Rightarrow> startswith (view raw) ''[''"
    by (auto simp: keyless_peer_def startswith_nonempty)
  obtain r1 s1 where p1: "parse_loop 0 pre (None, [], Some (- 1)) ?s0 = (r1, s1)"
    by (cases "parse_loop 0 pre (None, [], Some (- 1)) ?s0")
  from P L p1 obtain st1 where r1: "r1 = Inr st1"
    by (cases r1) (auto simp: parse_lines_def parse_loop_append)
  obtain sec1 sd1 le1 where st1: "st1 = (sec1, sd1, le1)" by (cases st1)
  from P L p1 r1
  have p2: "(case parse_loop ?n (hdr # body @ rest) st1 s1 of
               (Inl err, t) \<Rightarrow> (Inl err, t)
             | (Inr (section, section_data, _), t) \<Rightarrow> close_section section section_data t) = (Inr u, s')"
    by (simp add: parse_lines_def parse_loop_append)
  obtain r2 s2 where h: "parse_step ?n hdr st1 s1 = (r2, s2)"
    by (cases "parse_step ?n hdr st1 s1")
  from p2 h obtain st2 where r2: "r2 = Inr st2"
    by (cases r2) auto
  let ?sd2 = "AList.update SECTION_LASTLINE [I ?n]
                [(SECTION_FIRSTLINE, [I (case le1 of None \<Rightarrow> ?n | Some e \<Rightarrow> e + 1)])]"
  from h r2 st1 hn have st2: "st2 = (Some ''peer'', ?sd2, None)"
    by (auto simp: parse_step_header [OF v] split: prod.splits sum.splits)
  from k have m2: "map_of ?sd2 ?k = None"
    by (simp add: update_conv')
  from p1 have f1: "keyattr s1 = ?k" using parse_loop_frame [OF p1] by simp
  from h have f2: "keyattr s2 = ?k" using parse_step_frame [OF h] f1 by simp
  have b0: "built ?s0" by (simp add: built_def)
  from parse_loop_built [OF b0, of 0 pre "(None, [], Some (- 1))"] p1 have b1: "built s1" by simp
  from parse_step_built [OF b1, of ?n hdr st1] h have b2: "built s2" by simp
  from p2 h r2
  have p3: "(case parse_loop (?n + 1) (body @ rest) st2 s2 of
               (Inl err, t) \<Rightarrow> (Inl err, t)
             | (Inr (section, section_data, _), t) \<Rightarrow> close_section section section_data t) = (Inr u, s')"
    by simp
  obtain r3 s3 where l3: "parse_loop (?n + 1) body st2 s2 = (r3, s3)"
    by (cases "parse_loop (?n + 1) body st2 s2")
  from p3 l3 obtain st3 where r3: "r3 = Inr st3"
    by (cases r3) (auto simp: parse_loop_append)
  from parse_loop_body [OF B m2 k(2) l3 [unfolded r3 st2]]
  obtain sd3 le3 where st3: "st3 = (Some ''peer'', sd3, le3)" and m3: "map_of sd3 ?k = None"
    and s3: "s3 = s2"
    by blast
  from b2 obtain ps2 where ps2: "priv_peers s2 = Some ps2" by (auto simp: built_def)
  from p3 l3 r3 s3
  have p4: "(case parse_loop (?n + 1 + int (length body)) rest st3 s2 of
               (Inl err, t) \<Rightarrow> (Inl err, t)
             | (Inr (section, section_data, _), t) \<Rightarrow> close_section section section_data t) = (Inr u, s')"
    by (simp add: parse_loop_append)
  show ?thesis
  proof (cases rest)
    case Nil
    with p4 st3 have c: "close_section (Some ''peer'') sd3 s2 = (Inr u, s')" by simp
    have "map_of (collapse sd3) (keyattr s2) = None"
      using m3 f2 by (simp add: map_of_collapse_none)
    from close_section_keyless [OF _ this ps2 c] show ?thesis
      by (auto simp: has_none_def update_conv')
  next
    case (Cons raw rs)
    with R have vr: "view raw \<noteq> []" "startswith (view raw) ''[''"
      by (auto simp: startswith_nonempty)
    let ?m = "?n + 1 + int (length body)"
    let ?sd4 = "case le3 of None \<Rightarrow> sd3 | Some e \<Rightarrow> AList.update SECTION_LASTLINE [I (e - 1)] sd3"
    obtain r4 s4 where c4: "close_section (Some ''peer'') ?sd4 s2 = (r4, s4)"
      by (cases "close_section (Some ''peer'') ?sd4 s2")
    from p4 Cons st3 c4 obtain u4 where r4: "r4 = Inr u4"
      by (cases r4) (auto simp: parse_step_header [OF vr])
    have "map_of ?sd4 ?k = None"
      using m3 k(2) by (simp add: update_conv' split: option.split)
    then have "map_of (collapse ?sd4) (keyattr s2) = None"
      using f2 by (simp add: map_of_collapse_none)
    from close_section_keyless [OF _ this ps2 c4 [unfolded r4]] have h4: "has_none s4"
      by (auto simp: has_none_def update_conv')
    from p4 Cons st3 c4 r4 obtain st5 where
      p5: "(case parse_loop (?m + 1) rs st5 s4 of
               (Inl err, t) \<Rightarrow> (Inl err, t)
             | (Inr (section, section_data, _), t) \<Rightarrow> close_section section section_data t) = (Inr u, s')"
      by (auto simp: parse_step_header [OF vr] split: if_splits)
    obtain r6 s6 where l6: "parse_loop (?m + 1) rs st5 s4 = (r6, s6)"
      by (cases "parse_loop (?m + 1) rs st5 s4")
    from parse_loop_has_none [OF h4, of "?m + 1" rs st5] l6 have h6: "has_none s6" by simp
    from p5 l6 obtain sec6 sd6 le6 where "close_section sec6 sd6 s6 = (Inr u, s')"
      by (cases r6) auto
    with close_section_has_none [OF h6, of sec6 sd6] show ?thesis by simp
  qed
qed


lemma in_section_int: "in_section (Scalar (I fi)) (Scalar (I li)) i = Inr (fi \<le> i \<and> i \<le> li)"
  by (simp add: in_section_def)

lemma enable_loop_spec:
  "enable_loop (Scalar (I fi)) (Scalar (I li)) (int n) ls
     = Inr (map (\<lambda>(j, line). if fi \<le> int j \<and> int j \<le> li then replace_marker line else line)
              (enumerate n ls))"
proof (induction ls arbitrary: n)
  case Nil
  then show ?case by simp
next
  case (Cons line rest)
  have e: "int n + 1 = int (Suc n)" by simp
  show ?case
    by (simp only: enable_loop.simps in_section_int e Cons.IH enumerate_simps) simp
qed

lemma disable_loop_spec:
  "disable_loop (Scalar (I fi)) (Scalar (I li)) (int n) ls
     = Inr (map (\<lambda>(j, line). if fi \<le> int j \<and> int j \<le> li then marker @ line else line)
              (enumerate n ls))"
proof (induction ls arbitrary: n)
  case Nil
  then show ?case by simp
next
  case (Cons line rest)
  have e: "int n + 1 = int (Suc n)" by simp
  show ?case
    by (simp only: disable_loop.simps in_section_int e Cons.IH enumerate_simps) simp
qed

lemma get_peer_found:
  assumes "priv_peers s = Some ps" and "map_of ps key = Some d"
  shows "get_peer key details s = (Inr (get_filtered_dictionary d details), s)"
  using assms by (simp add: get_peer_def peers_built)

lemma get_peer_enabled_found:
  assumes "priv_peers s = Some ps" and "map_of ps key = Some d"
    and "map_of d SECTION_DISABLED = Some (BoolV b)"
  shows "get_peer_enabled key s = (Inr (\<not> b), s)"
  using assms by (simp add: get_peer_enabled_def get_peer_found get_filtered_dictionary_def)

lemma enable_peer_found:
  assumes "priv_peers s = Some ps" and "map_of ps key = Some d"
    and "map_of d SECTION_FIRSTLINE = Some (Scalar (I fi))"
    and "map_of d SECTION_LASTLINE = Some (Scalar (I li))"
  shows "enable_peer key s
       = (Inr (), invalidate_data (s\<lparr>lines := toggled replace_marker fi li (lines s)\<rparr>))"
  using assms enable_loop_spec [of fi li 0 "lines s"]
  by (simp add: enable_peer_def peers_built dict_get_def toggled_def)

lemma disable_peer_found:
  assumes "priv_peers s = Some ps" and "map_of ps key = Some d"
    and "map_of d SECTION_FIRSTLINE = Some (Scalar (I fi))"
    and "map_of d SECTION_LASTLINE = Some (Scalar (I li))"
    and "map_of d SECTION_DISABLED = Some (BoolV b)"
  shows "disable_peer key s
       = (if b then (Inr (), s)
          else (Inr (), invalidate_data (s\<lparr>lines := toggled ((@) marker) fi li (lines s)\<rparr>)))"
  using assms disable_loop_spec [of fi li 0 "lines s"]
  by (simp add: disable_peer_def peers_built dict_get_def toggled_def get_peer_enabled_found)

lemma del_peer_found:
  assumes "priv_peers s = Some ps" and "map_of ps key = Some d"
    and "map_of d SECTION_FIRSTLINE = Some (Scalar (I fi))"
    and "map_of d SECTION_LASTLINE = Some (Scalar (I li))"
    and "0 \<le> fi" and "fi \<le> li" and "li < int (length (lines s))"
  shows "del_peer key s
       = (Inr (), invalidate_data
            (s\<lparr>lines := take (nat (if 0 < fi \<and> lines s ! nat (fi - 1) = [] then fi - 1 else fi)) (lines s)
                         @ drop (nat li + 1) (lines s)\<rparr>))"
proof -
  let ?f = "if 0 < fi \<and> lines s ! nat (fi - 1) = [] then fi - 1 else fi"
  have g: "0 < fi \<Longrightarrow> py_get (lines s) (fi - 1) = Inr (lines s ! nat (fi - 1))"
    using assms(5-7) by (simp add: py_get_inside)
  have sl: "\<And>f. 0 \<le> f \<Longrightarrow> f \<le> fi \<Longrightarrow>
               (if f > 0 then py_slice (lines s) 0 f else []) = take (nat f) (lines s)"
    using assms(6,7) by (auto simp: py_slice_def slice_bound_def Let_def min_def)
  have b: "py_slice_from (lines s) (li + 1) = drop (nat li + 1) (lines s)"
    using assms(5-7) by (simp add: py_slice_from_def slice_bound_def Let_def min_def nat_add_distrib)
  show ?thesis
  proof (cases "0 < fi")
    case True
    note pos = this
    show ?thesis
    proof (cases "lines s ! nat (fi - 1) = []")
      case True
      from pos have "0 \<le> fi - 1" "fi - 1 \<le> fi" by simp_all
      from sl [OF this] assms(1-4) g pos True b show ?thesis
        by (simp add: del_peer_def peers_built dict_get_def Let_def)
    next
      case False
      from sl [of fi] assms(1-5) g pos False b show ?thesis
        by (simp add: del_peer_def peers_built dict_get_def Let_def)
    qed
  next
    case False
    from sl [of fi] assms(1-5) False b show ?thesis
      by (simp add: del_peer_def peers_built dict_get_def Let_def)
  qed
qed

lemma lookup_ignores_none:
  assumes "priv_peers s = Some ps"
  shows "fst (get_peer (Some a) details s)
           = fst (get_peer (Some a) details (s\<lparr>priv_peers := Some (AList.delete None ps)\<rparr>))
       \<and> fst (get_peer_enabled (Some a) s)
           = fst (get_peer_enabled (Some a) (s\<lparr>priv_peers := Some (AList.delete None ps)\<rparr>))
       \<and> fst (del_peer (Some a) s)
           = fst (del_peer (Some a) (s\<lparr>priv_peers := Some (AList.delete None ps)\<rparr>))
       \<and> lines (snd (del_peer (Some a) s))
           = lines (snd (del_peer (Some a) (s\<lparr>priv_peers := Some (AList.delete None ps)\<rparr>)))
       \<and> fst (enable_peer (Some a) s)
           = fst (enable_peer (Some a) (s\<lparr>priv_peers := Some (AList.delete None ps)\<rparr>))
       \<and> lines (snd (enable_peer (Some a) s))
           = lines (snd (enable_peer (Some a) (s\<lparr>priv_peers := Some (AList.delete None ps)\<rparr>)))
       \<and> fst (disable_peer (Some a) s)
           = fst (disable_peer (Some a) (s\<lparr>priv_peers := Some (AList.delete None ps)\<rparr>))
       \<and> lines (snd (disable_peer (Some a) s))
           = lines (snd (disable_peer (Some a) (s\<lparr>priv_peers := Some (AList.delete None ps)\<rparr>)))"
proof -
  let ?s0 = "s\<lparr>priv_peers := Some (AList.delete None ps)\<rparr>"
  have m: "map_of (AList.delete None ps) (Some a) = map_of ps (Some a)"
    by (simp add: map_of_delete_other)
  have p: "peers s = (Inr ps, s)" "peers ?s0 = (Inr (AList.delete None ps), ?s0)"
    using assms by (simp_all add: peers_built)
  have g: "fst (get_peer (Some a) details s) = fst (get_peer (Some a) details ?s0)"
    by (simp add: get_peer_def p m split: option.split)
  have ge: "get_peer (Some a) True s = (case map_of ps (Some a) of None \<Rightarrow> (Inl KeyError, s) | Some d \<Rightarrow> (Inr d, s))"
    "get_peer (Some a) True ?s0 = (case map_of ps (Some a) of None \<Rightarrow> (Inl KeyError, ?s0) | Some d \<Rightarrow> (Inr d, ?s0))"
    by (simp_all add: get_peer_def p m get_filtered_dictionary_def split: option.split)
  have e: "fst (get_peer_enabled (Some a) s) = fst (get_peer_enabled (Some a) ?s0)"
    by (simp add: get_peer_enabled_def ge split: option.split)
  have d1: "fst (del_peer (Some a) s) = fst (del_peer (Some a) ?s0)"
    by (simp add: del_peer_def p m Let_def invalidate_data_def split: option.split sum.split)
  have d2: "lines (snd (del_peer (Some a) s)) = lines (snd (del_peer (Some a) ?s0))"
    by (simp add: del_peer_def p m Let_def invalidate_data_def split: option.split sum.split)
  have e1: "fst (enable_peer (Some a) s) = fst (enable_peer (Some a) ?s0)"
    by (simp add: enable_peer_def p m invalidate_data_def split: option.split sum.split)
  have e2: "lines (snd (enable_peer (Some a) s)) = lines (snd (enable_peer (Some a) ?s0))"
    by (simp add: enable_peer_def p m invalidate_data_def split: option.split sum.split)
  have x1: "fst (disable_peer (Some a) s) = fst (disable_peer (Some a) ?s0)"
    by (simp add: disable_peer_def p m get_peer_enabled_def ge invalidate_data_def
             split: option.split sum.split)
  have x2: "lines (snd (disable_peer (Some a) s)) = lines (snd (disable_peer (Some a) ?s0))"
    by (simp add: disable_peer_def p m get_peer_enabled_def ge invalidate_data_def
             split: option.split sum.split)
  from g e d1 d2 e1 e2 x1 x2 show ?thesis by blast
qed

lemma filter_upto_least:
  assumes "filter P [a..b] = m # ms" and "x \<in> set (m # ms)"
  shows "m \<le> x \<and> a \<le> m \<and> m \<le> b \<and> P m"
proof -
  have "sorted (filter P [a..b])" by (simp add: sorted_wrt_filter)
  with assms(1) have "sorted (m # ms)" by simp
  with assms(2) have 1: "m \<le> x" by auto
  have "m \<in> set (filter P [a..b])" by (simp add: assms(1))
  with 1 show ?thesis by auto
qed

lemma find_all_spec:
  assumes "find_all ls attr v js acc = Inr lf" and "\<forall>j \<in> set js. 0 \<le> j \<and> j < int (length ls)"
  shows "lf = acc @ filter (value_match ls attr v) js"
  using assms
proof (induction js arbitrary: acc)
  case Nil
  then show ?case by simp
next
  case (Cons j js)
  from Cons.prems(2) have j: "0 \<le> j" "j < int (length ls)"
    and rest: "\<forall>j \<in> set js. 0 \<le> j \<and> j < int (length ls)"
    by simp_all
  from Cons.prems(1) j obtain a vs c where p: "parse_line (ls ! nat j) = Inr (a, vs, c)"
    by (auto simp: py_get_inside split: sum.splits)
  let ?acc = "if attr = a \<and> (v = None \<or> the v \<in> set vs) then acc @ [j] else acc"
  from Cons.prems(1) j p have "find_all ls attr v js ?acc = Inr lf"
    by (simp add: py_get_inside)
  from Cons.IH [OF this rest] p show ?case
    by (auto simp: value_match_def)
qed

lemma py_del_frame:
  assumes "py_del ls i = Inr ls'" and "0 \<le> m" and "m \<le> i"
  shows "take (nat m) ls' = take (nat m) ls \<and> nat m \<le> length ls'"
proof -
  from assms have i: "i < int (length ls)" and e: "ls' = take (nat i) ls @ drop (Suc (nat i)) ls"
    by (auto simp: py_del_def norm_index_def split: if_splits)
  from assms(2,3) have "nat m \<le> nat i" by simp
  with i e show ?thesis by (auto simp: min_def)
qed

lemma py_set_frame:
  assumes "py_set ls i x = Inr ls'" and "0 \<le> m" and "m \<le> i"
  shows "take (nat m) ls' = take (nat m) ls \<and> length ls' = length ls"
proof -
  from assms have i: "i < int (length ls)" and e: "ls' = ls[nat i := x]"
    by (auto simp: py_set_def norm_index_def split: if_splits)
  from assms(2,3) have "nat m \<le> nat i" by simp
  with i e show ?thesis by simp
qed

lemma del_process_step:
  "(\<exists>e. del_process v (i # rest) ls = (Inl e, ls))
   \<or> (\<exists>ls1. (py_del ls i = Inr ls1 \<or> (\<exists>y. py_set ls i y = Inr ls1))
            \<and> del_process v (i # rest) ls = del_process v rest ls1)"
proof (cases v)
  case None
  then show ?thesis by (cases "py_del ls i") auto
next
  case (Some x)
  show ?thesis
  proof (cases "py_get ls i")
    case (Inl e)
    with Some show ?thesis by simp
  next
    case (Inr line)
    note g = this
    show ?thesis
    proof (cases "parse_line line")
      case (Inl e)
      with Some g show ?thesis by simp
    next
      case (Inr t)
      obtain a vs c where t: "t = (a, vs, c)" by (cases t)
      show ?thesis
      proof (cases "x \<in> set vs")
        case False
        with Some g Inr t show ?thesis by simp
      next
        case True
        note mem = this
        show ?thesis
        proof (cases "length (remove1 x vs) > 0")
          case True
          show ?thesis
          proof (cases "join_values (remove1 x vs)")
            case (Inl e)
            with Some g Inr t mem True show ?thesis by simp
          next
            case (Inr joined)
            note j = this
            show ?thesis
            proof (cases "py_set ls i (a @ '' = '' @ joined @ c)")
              case (Inl e)
              with Some g \<open>parse_line line = Inr t\<close> t mem True j show ?thesis by simp
            next
              case (Inr ls1)
              with Some g \<open>parse_line line = Inr t\<close> t mem True j show ?thesis
                by (intro disjI2 exI [of _ ls1]) auto
            qed
          qed
        next
          case False
          show ?thesis
          proof (cases "py_del ls i")
            case (Inl e)
            with Some g Inr t mem False show ?thesis by simp
          next
            case (Inr ls1)
            with Some g \<open>parse_line line = Inr t\<close> t mem False show ?thesis
              by (intro disjI2 exI [of _ ls1]) auto
          qed
        qed
      qed
    qed
  qed
qed

lemma del_process_frame:
  assumes "\<forall>i \<in> set is. m \<le> i" and "0 \<le> m" and "nat m \<le> length ls"
    and "del_process v is ls = (r, ls')"
  shows "take (nat m) ls' = take (nat m) ls \<and> nat m \<le> length ls'"
  using assms
proof (induction "is" arbitrary: ls)
  case Nil
  then show ?case by simp
next
  case (Cons i rest)
  from Cons.prems(1) have mi: "m \<le> i" and mr: "\<forall>i \<in> set rest. m \<le> i" by simp_all
  from del_process_step [of v i rest ls]
  consider (err) e where "del_process v (i # rest) ls = (Inl e, ls)"
    | (go) ls1 where "py_del ls i = Inr ls1 \<or> (\<exists>y. py_set ls i y = Inr ls1)"
        "del_process v (i # rest) ls = del_process v rest ls1"
    by blast
  then show ?case
  proof cases
    case err
    with Cons.prems(3,4) show ?thesis by simp
  next
    case go
    have f: "take (nat m) ls1 = take (nat m) ls \<and> nat m \<le> length ls1"
    proof -
      from go(1) consider (d) "py_del ls i = Inr ls1" | (u) y where "py_set ls i y = Inr ls1"
        by blast
      then show ?thesis
      proof cases
        case d
        from py_del_frame [OF d Cons.prems(2) mi] show ?thesis .
      next
        case u
        from py_set_frame [OF u Cons.prems(2) mi] Cons.prems(3) show ?thesis by simp
      qed
    qed
    from go(2) Cons.prems(4) have b: "del_process v rest ls1 = (r, ls')" by simp
    from Cons.IH [OF mr Cons.prems(2) _ b] f show ?thesis by simp
  qed
qed

lemma del_attr_unfold:
  assumes "get_sectioninfo key s = (Inr (Scalar (I fi), Scalar (I li)), s1)"
  shows "del_attr key attr v rlc s =
     (case find_all (lines s1) attr v [fi + 1..li] [] of
        Inl err \<Rightarrow> (Inl err, s1)
      | Inr line_found \<Rightarrow>
          if line_found = [] then (Inl ValueError, s1)
          else
            (case del_process v (rev line_found) (lines s1) of
               (Inl err, ls') \<Rightarrow> (Inl err, s1\<lparr>lines := ls'\<rparr>)
             | (Inr _, ls') \<Rightarrow>
                 if rlc then
                   (case comment_scan (hd line_found - 1) ls' of
                      (Inl err, ls'') \<Rightarrow> (Inl err, s1\<lparr>lines := ls''\<rparr>)
                    | (Inr _, ls'') \<Rightarrow> (Inr (), invalidate_data (s1\<lparr>lines := ls''\<rparr>)))
                 else (Inr (), invalidate_data (s1\<lparr>lines := ls'\<rparr>))))"
  using assms by (simp add: del_attr_def split: sum.split)

section \<open>The parse pass on buffers that look the same to it\<close>

lemma erase_update:
  "k = SECTION_RAW \<or> k = SECTION_DISABLED \<Longrightarrow> erase (AList.update k v d) = erase d"
  unfolding erase_def by (induction d) auto

lemma erase_peers_update:
  "erase d = erase d' \<Longrightarrow> erase_peers ps = erase_peers ps' \<Longrightarrow>
   erase_peers (AList.update k d ps) = erase_peers (AList.update k d' ps')"
  unfolding erase_peers_def
proof (induction ps arbitrary: ps')
  case Nil
  then show ?case by simp
next
  case (Cons p ps)
  then obtain p' qs where ps': "ps' = p' # qs" by (cases ps') auto
  with Cons.prems(2) have h: "fst p = fst p'" "erase (snd p) = erase (snd p')"
    and t: "map (\<lambda>(k, d). (k, erase d)) ps = map (\<lambda>(k, d). (k, erase d)) qs"
    by (auto simp: case_prod_unfold)
  from Cons.IH [OF Cons.prems(1) t] h Cons.prems(1) ps' t show ?case
    by (cases p; cases p') auto
qed

lemma py_slice_empty_length:
  "length ls = length ls' \<Longrightarrow> (py_slice ls a b = []) = (py_slice ls' a b = [])"
  by (simp add: py_slice_def slice_bound_def Let_def)

lemma stamp_sim:
  assumes "length ls = length ls'"
  shows "map_sum id erase (stamp ls sd) = map_sum id erase (stamp ls' sd)"
proof -
  have e: "\<And>a b. (py_slice ls a b = []) = (py_slice ls' a b = [])"
    using assms by (rule py_slice_empty_length)
  show ?thesis
    unfolding stamp_def Let_def
    by (auto simp: erase_update split: sum.split pyval.split atom.split list.split
             dest: e [THEN iffD1] e [THEN iffD2])
qed


lemma close_section_sim:
  assumes r: "erase_state s = erase_state s'"
  shows "fst (close_section sec sd s) = fst (close_section sec sd s')
       \<and> erase_state (snd (close_section sec sd s)) = erase_state (snd (close_section sec sd s'))"
proof -
  let ?c = "collapse sd"
  from r have k: "keyattr s = keyattr s'" and n: "length (lines s) = length (lines s')"
    and i: "map_option erase (priv_interface s) = map_option erase (priv_interface s')"
    and p: "map_option erase_peers (priv_peers s) = map_option erase_peers (priv_peers s')"
    by (simp_all add: erase_state_def)
  note st = stamp_sim [OF n, of ?c]
  show ?thesis
  proof (cases "list_ex (\<lambda>(k, v). v = []) sd")
    case True
    with r show ?thesis by (simp add: close_section_def)
  next
    case False
    note ne = this
    show ?thesis
    proof (cases sec)
      case None
      with ne r show ?thesis by (simp add: close_section_def Let_def)
    next
      case (Some name)
      show ?thesis
      proof (cases "name = ''interface''")
        case True
        show ?thesis
        proof (cases "stamp (lines s) ?c")
          case (Inl e)
          with st have "stamp (lines s') ?c = Inl e" by (cases "stamp (lines s') ?c") auto
          with Inl ne Some True k n p show ?thesis
            by (simp add: close_section_def Let_def erase_state_def)
        next
          case (Inr d)
          with st obtain d' where "stamp (lines s') ?c = Inr d'" "erase d = erase d'"
            by (cases "stamp (lines s') ?c") auto
          with Inr ne Some True k n p show ?thesis
            by (simp add: close_section_def Let_def erase_state_def)
        qed
      next
        case False
        note peer = this
        have bad: "\<And>e. (case map_of ?c (keyattr s) of Some (ListV x) \<Rightarrow> True | Some (BoolV b) \<Rightarrow> True | _ \<Rightarrow> False)
                  \<Longrightarrow> ?thesis"
          using ne Some peer k r
          by (auto simp: close_section_def Let_def split: option.splits pyval.splits)
        show ?thesis
        proof (cases "case map_of ?c (keyattr s) of Some (ListV x) \<Rightarrow> True | Some (BoolV b) \<Rightarrow> True | _ \<Rightarrow> False")
          case True
          then show ?thesis by (rule bad)
        next
          case False
          define peername where
            "peername = (case map_of ?c (keyattr s) of Some (Scalar a) \<Rightarrow> Some a | _ \<Rightarrow> None)"
          have cs: "\<And>t. keyattr t = keyattr s \<Longrightarrow> close_section sec sd t =
                  (case priv_peers t of
                     None \<Rightarrow> (Inl TypeError, t)
                   | Some ps \<Rightarrow>
                       (case stamp (lines t) ?c of
                          Inl e \<Rightarrow> (Inl e, t\<lparr>priv_peers := Some (AList.update peername ?c ps)\<rparr>)
                        | Inr d \<Rightarrow> (Inr (), t\<lparr>priv_peers := Some (AList.update peername d ps)\<rparr>)))"
            using ne Some peer False
            by (auto simp: close_section_def Let_def peername_def
                     split: option.splits pyval.splits sum.splits)
          show ?thesis
          proof (cases "priv_peers s")
            case None
            with p have "priv_peers s' = None" by simp
            with None r k show ?thesis by (simp add: cs)
          next
            case (Some ps)
            with p obtain ps' where ps': "priv_peers s' = Some ps'"
              and pe: "erase_peers ps = erase_peers ps'"
              by (cases "priv_peers s'") auto
            show ?thesis
            proof (cases "stamp (lines s) ?c")
              case (Inl e)
              with st have "stamp (lines s') ?c = Inl e" by (cases "stamp (lines s') ?c") auto
              with Inl Some ps' k n i erase_peers_update [OF refl pe, of peername ?c] show ?thesis
                by (simp add: cs erase_state_def)
            next
              case (Inr d)
              with st obtain d' where d': "stamp (lines s') ?c = Inr d'" "erase d = erase d'"
                by (cases "stamp (lines s') ?c") auto
              with Inr Some ps' k n i erase_peers_update [OF d'(2) pe, of peername] show ?thesis
                by (simp add: cs erase_state_def)
            qed
          qed
        qed
      qed
    qed
  qed
qed


lemma parse_step_sim:
  assumes w: "view raw = view raw'" and r: "erase_state s = erase_state s'"
  shows "fst (parse_step i raw st s) = fst (parse_step i raw' st s')
       \<and> erase_state (snd (parse_step i raw st s)) = erase_state (snd (parse_step i raw' st s'))"
proof -
  obtain sec sd le where st: "st = (sec, sd, le)" by (cases st)
  consider (blank) "view raw = []"
    | (header) "view raw \<noteq> []" "startswith (view raw) ''[''"
    | (comment) "view raw \<noteq> []" "\<not> startswith (view raw) ''[''" "startswith (view raw) ''#''"
    | (regular) "view raw \<noteq> []" "\<not> startswith (view raw) ''[''" "\<not> startswith (view raw) ''#''"
    by blast
  then show ?thesis
  proof cases
    case blank
    with w have "view raw' = []" by simp
    with blank r st show ?thesis by (simp add: parse_step_blank)
  next
    case header
    with w have h': "view raw' \<noteq> []" "startswith (view raw') ''[''" by simp_all
    let ?sd = "case le of None \<Rightarrow> sd | Some e \<Rightarrow> AList.update SECTION_LASTLINE [I (e - 1)] sd"
    obtain r1 s1 where c1: "close_section sec ?sd s = (r1, s1)" by (cases "close_section sec ?sd s")
    obtain r2 s2 where c2: "close_section sec ?sd s' = (r2, s2)" by (cases "close_section sec ?sd s'")
    from close_section_sim [OF r, of sec ?sd] c1 c2
    have e: "r1 = r2" "erase_state s1 = erase_state s2" by simp_all
    show ?thesis
      using e c1 c2 w
      by (cases r2) (simp_all add: st parse_step_header [OF header] parse_step_header [OF h'])
  next
    case comment
    with w have "view raw' \<noteq> []" "\<not> startswith (view raw') ''[''" "startswith (view raw') ''#''"
      by simp_all
    with comment r st show ?thesis by (simp add: parse_step_comment)
  next
    case regular
    with w have r': "view raw' \<noteq> []" "\<not> startswith (view raw') ''[''" "\<not> startswith (view raw') ''#''"
      by simp_all
    show ?thesis
      using r w
      by (cases "parse_line (view raw')")
         (auto simp: st parse_step_regular [OF regular] parse_step_regular [OF r'])
  qed
qed

lemma parse_loop_sim:
  assumes "map view ls = map view ls'" and "erase_state s = erase_state s'"
  shows "fst (parse_loop i ls st s) = fst (parse_loop i ls' st s')
       \<and> erase_state (snd (parse_loop i ls st s)) = erase_state (snd (parse_loop i ls' st s'))"
  using assms
proof (induction ls arbitrary: ls' i st s s')
  case Nil
  then show ?case by simp
next
  case (Cons raw rest)
  then obtain raw' rest' where ls': "ls' = raw' # rest'" and w: "view raw = view raw'"
    and m: "map view rest = map view rest'"
    by (cases ls') auto
  obtain r1 s1 where p1: "parse_step i raw st s = (r1, s1)" by (cases "parse_step i raw st s")
  obtain r2 s2 where p2: "parse_step i raw' st s' = (r2, s2)" by (cases "parse_step i raw' st s'")
  from parse_step_sim [OF w Cons.prems(2), of i st] p1 p2
  have e: "r1 = r2" "erase_state s1 = erase_state s2" by simp_all
  show ?case
  proof (cases r2)
    case (Inl err)
    with e p1 p2 ls' show ?thesis by simp
  next
    case (Inr st1)
    with e p1 p2 ls' Cons.IH [OF m e(2), of "i + 1" st1] show ?thesis by simp
  qed
qed

lemma parse_lines_sim:
  assumes "map view (lines s) = map view (lines s')" and "keyattr s = keyattr s'"
  shows "fst (parse_lines s) = fst (parse_lines s')
       \<and> erase_state (snd (parse_lines s)) = erase_state (snd (parse_lines s'))"
proof -
  let ?s0 = "s\<lparr>priv_interface := Some [], priv_peers := Some []\<rparr>"
  let ?t0 = "s'\<lparr>priv_interface := Some [], priv_peers := Some []\<rparr>"
  from assms(1) have "length (map view (lines s)) = length (map view (lines s'))" by simp
  then have n: "length (lines s) = length (lines s')" by simp
  with assms(2) have r0: "erase_state ?s0 = erase_state ?t0"
    by (simp add: erase_state_def)
  obtain r1 s1 where p1: "parse_loop 0 (lines s) (None, [], Some (- 1)) ?s0 = (r1, s1)"
    by (cases "parse_loop 0 (lines s) (None, [], Some (- 1)) ?s0")
  obtain r2 s2 where p2: "parse_loop 0 (lines s') (None, [], Some (- 1)) ?t0 = (r2, s2)"
    by (cases "parse_loop 0 (lines s') (None, [], Some (- 1)) ?t0")
  from parse_loop_sim [OF assms(1) r0, of 0 "(None, [], Some (- 1))"] p1 p2
  have e: "r1 = r2" "erase_state s1 = erase_state s2" by simp_all
  show ?thesis
  proof (cases r2)
    case (Inl err)
    with e p1 p2 show ?thesis by (simp add: parse_lines_def)
  next
    case (Inr st1)
    obtain sec sd le where st1: "st1 = (sec, sd, le)" by (cases st1)
    from close_section_sim [OF e(2), of sec sd] Inr st1 e p1 p2 show ?thesis
      by (simp add: parse_lines_def)
  qed
qed


lemma length_toggled [simp]: "length (toggled f fi li ls) = length ls"
  by (simp add: toggled_def)

lemma nth_toggled:
  "j < length ls \<Longrightarrow>
   toggled f fi li ls ! j = (if fi \<le> int j \<and> int j \<le> li then f (ls ! j) else ls ! j)"
  by (simp add: toggled_def nth_enumerate_eq)

lemma replace_marker_prefixed: "replace_marker (marker @ l) = replace_marker l"
  by (subst replace_marker.simps) (simp add: marker_def)

lemma view_prefixed: "view (marker @ l) = view l"
  by (simp add: view_def replace_marker_prefixed)

lemma view_toggled_marker: "map view (toggled ((@) marker) fi li ls) = map view ls"
  by (rule nth_equalityI) (simp_all add: nth_toggled view_prefixed)

lemma toggled_twice:
  "toggled f fi li (toggled g fi li ls) = toggled (f \<circ> g) fi li ls"
  by (rule nth_equalityI) (simp_all add: nth_toggled)

lemma erase_lookup:
  "k \<noteq> SECTION_RAW \<Longrightarrow> k \<noteq> SECTION_DISABLED \<Longrightarrow> map_of (erase d) k = map_of d k"
  unfolding erase_def by (induction d) auto

lemma erase_peers_lookup:
  assumes "erase_peers ps = erase_peers ps'" and "map_of ps k = Some d"
  shows "\<exists>d'. map_of ps' k = Some d' \<and> erase d' = erase d"
  using assms unfolding erase_peers_def
proof (induction ps arbitrary: ps')
  case Nil
  then show ?case by simp
next
  case (Cons p ps)
  then obtain p' qs where ps': "ps' = p' # qs" by (cases ps') auto
  with Cons.prems(1) have h: "fst p = fst p'" "erase (snd p) = erase (snd p')"
    and t: "map (\<lambda>(k, d). (k, erase d)) ps = map (\<lambda>(k, d). (k, erase d)) qs"
    by (auto simp: case_prod_unfold)
  show ?case
  proof (cases "fst p = k")
    case True
    with Cons.prems(2) h ps' show ?thesis by (cases p; cases p') auto
  next
    case False
    with Cons.prems(2) have "map_of ps k = Some d" by (cases p) auto
    from Cons.IH [OF t this] False h ps' show ?thesis by (cases p') auto
  qed
qed


lemma section_names_plain:
  "SECTION_FIRSTLINE \<noteq> SECTION_RAW" "SECTION_FIRSTLINE \<noteq> SECTION_DISABLED"
  "SECTION_LASTLINE \<noteq> SECTION_RAW" "SECTION_LASTLINE \<noteq> SECTION_DISABLED"
  by (simp_all add: SECTION_FIRSTLINE_def SECTION_LASTLINE_def SECTION_RAW_def SECTION_DISABLED_def)

lemma reparse_same_views:
  assumes P: "parse_lines sP = (Inr (), sP)" and ps: "priv_peers sP = Some ps"
    and d: "map_of ps k = Some d"
    and v: "map view ls = map view (lines sP)"
  shows "\<exists>s1' ps1 d1. peers (invalidate_data (sP\<lparr>lines := ls\<rparr>)) = (Inr ps1, s1')
           \<and> priv_peers s1' = Some ps1 \<and> lines s1' = ls \<and> parse_lines s1' = (Inr (), s1')
           \<and> map_of ps1 k = Some d1
           \<and> map_of d1 SECTION_FIRSTLINE = map_of d SECTION_FIRSTLINE
           \<and> map_of d1 SECTION_LASTLINE = map_of d SECTION_LASTLINE
           \<and> good_section ls d1"
proof -
  let ?s1 = "invalidate_data (sP\<lparr>lines := ls\<rparr>)"
  have l1: "lines ?s1 = ls" and k1: "keyattr ?s1 = keyattr sP"
    and u1: "priv_peers ?s1 = None"
    by (simp_all add: invalidate_data_def)
  obtain r1 s1' where p0: "parse_lines ?s1 = (r1, s1')" by (cases "parse_lines ?s1")
  from parse_lines_sim [of ?s1 sP] v l1 k1 P p0
  have f: "r1 = Inr ()" and e: "erase_state s1' = erase_state sP"
    by simp_all
  from p0 f have p1: "parse_lines ?s1 = (Inr (), s1')" by simp
  from e ps obtain ps1 where ps1: "priv_peers s1' = Some ps1"
    and pe: "erase_peers ps = erase_peers ps1"
    by (cases "priv_peers s1'") (auto simp: erase_state_def)
  from erase_peers_lookup [OF pe d] obtain d1 where d1: "map_of ps1 k = Some d1"
    and ed: "erase d1 = erase d"
    by blast
  have "map_of (erase d1) SECTION_FIRSTLINE = map_of (erase d) SECTION_FIRSTLINE"
    "map_of (erase d1) SECTION_LASTLINE = map_of (erase d) SECTION_LASTLINE"
    using ed by simp_all
  then have fl: "map_of d1 SECTION_FIRSTLINE = map_of d SECTION_FIRSTLINE"
    "map_of d1 SECTION_LASTLINE = map_of d SECTION_LASTLINE"
    by (simp_all add: erase_lookup section_names_plain)
  from parse_lines_frame [OF p1] l1 have l1': "lines s1' = ls" by simp
  from parse_lines_good [OF p1] ps1 d1 l1' have g: "good_section ls d1"
    by (auto simp: cache_good_def)
  from peers_unbuilt [OF u1] p1 ps1 have pp: "peers ?s1 = (Inr ps1, s1')" by simp
  from parse_lines_idem [OF p1] have "parse_lines s1' = (Inr (), s1')" by simp
  with pp ps1 l1' d1 fl g show ?thesis by blast
qed


lemma disable_peer_after_peers:
  assumes "peers s = (Inr ps, sP)"
  shows "disable_peer key s = disable_peer key sP"
  using assms peers_built [OF peers_result_built [OF assms]]
  by (simp add: disable_peer_def)

lemma enable_peer_after_peers:
  assumes "peers s = (Inr ps, sP)"
  shows "enable_peer key s = enable_peer key sP"
  using assms peers_built [OF peers_result_built [OF assms]]
  by (simp add: enable_peer_def)


lemma found_peer:
  assumes v: "cache_valid s" and g: "get_peer key details s = (Inr r, s0)"
  shows "\<exists>ps d fi li. peers s = (Inr ps, s0) \<and> parse_lines s0 = (Inr (), s0)
           \<and> priv_peers s0 = Some ps \<and> lines s0 = lines s \<and> map_of ps key = Some d
           \<and> map_of d SECTION_FIRSTLINE = Some (Scalar (I fi))
           \<and> map_of d SECTION_LASTLINE = Some (Scalar (I li))
           \<and> 0 \<le> fi \<and> fi \<le> li \<and> li < int (length (lines s))
           \<and> map_of d SECTION_DISABLED = Some (BoolV (startswith (lines s ! nat fi) marker))"
proof -
  from g obtain ps d where p: "peers s = (Inr ps, s0)" and d: "map_of ps key = Some d"
    by (auto simp: get_peer_def split: prod.splits sum.splits option.splits)
  from peers_cache_valid [OF v p] have c: "parse_lines s0 = (Inr (), s0)" "priv_peers s0 = Some ps"
    "lines s0 = lines s" by simp_all
  from peers_good [OF v p d] p c d show ?thesis
    by (auto simp: good_section_def)
qed

section \<open>Disabling and enabling a peer\<close>

lemma toggled_same:
  assumes "0 \<le> fi" and "li < int (length ls)"
  shows "(toggled f fi li ls = ls) = (\<forall>j. fi \<le> j \<and> j \<le> li \<longrightarrow> f (ls ! nat j) = ls ! nat j)"
proof
  assume e: "toggled f fi li ls = ls"
  show "\<forall>j. fi \<le> j \<and> j \<le> li \<longrightarrow> f (ls ! nat j) = ls ! nat j"
  proof (intro allI impI)
    fix j assume j: "fi \<le> j \<and> j \<le> li"
    with assms have n: "nat j < length ls" by auto
    from nth_toggled [OF n, of f fi li] j assms(1) e show "f (ls ! nat j) = ls ! nat j"
      by simp
  qed
next
  assume a: "\<forall>j. fi \<le> j \<and> j \<le> li \<longrightarrow> f (ls ! nat j) = ls ! nat j"
  show "toggled f fi li ls = ls"
  proof (rule nth_equalityI)
    show "length (toggled f fi li ls) = length ls" by simp
  next
    fix i assume "i < length (toggled f fi li ls)"
    then have i: "i < length ls" by simp
    from a [rule_format, of "int i"] nth_toggled [OF i, of f fi li]
    show "toggled f fi li ls ! i = ls ! i" by auto
  qed
qed

lemma length_replace_marker: "length (replace_marker v) \<le> length v"
proof (induction v rule: replace_marker.induct)
  case (1 v)
  show ?case
  proof (cases "v = []")
    case True
    then show ?thesis by (subst replace_marker.simps) simp
  next
    case False
    note ne = this
    show ?thesis
    proof (cases "prefix marker v")
      case True
      with ne 1(1) have "length (replace_marker (drop 3 v)) \<le> length (drop 3 v)" by simp
      with ne True show ?thesis by (subst replace_marker.simps) simp
    next
      case False
      with ne 1(2) have "length (replace_marker (tl v)) \<le> length (tl v)" by simp
      with ne False show ?thesis by (subst replace_marker.simps) (cases v; simp)
    qed
  qed
qed

lemma replace_marker_fixed: "(replace_marker v = v) = (\<not> sublist marker v)"
proof (induction v rule: replace_marker.induct)
  case (1 v)
  show ?case
  proof (cases "v = []")
    case True
    then show ?thesis by (subst replace_marker.simps) (simp add: marker_def)
  next
    case False
    note ne = this
    show ?thesis
    proof (cases "prefix marker v")
      case True
      from length_replace_marker [of "drop 3 v"] ne True
      have "length (replace_marker (drop 3 v)) < length v"
        by (auto simp: marker_def prefix_def)
      then have "replace_marker (drop 3 v) \<noteq> v" by auto
      with ne True have "replace_marker v \<noteq> v" by (subst replace_marker.simps) simp
      moreover from True have "sublist marker v" by (rule prefix_imp_sublist)
      ultimately show ?thesis by simp
    next
      case False
      obtain x xs where v: "v = x # xs" using ne by (cases v) auto
      from False ne 1(2) have ih: "(replace_marker (tl v) = tl v) = (\<not> sublist marker (tl v))"
        by simp
      from False ne v have "replace_marker v = x # replace_marker xs"
        by (subst replace_marker.simps) simp
      with v have a: "(replace_marker v = v) = (replace_marker xs = xs)" by simp
      from False v have b: "sublist marker v = sublist marker xs"
        by (simp add: sublist_Cons_right)
      from a b ih v show ?thesis by simp
    qed
  qed
qed

section \<open>The attribute codec: number values\<close>

text \<open>
  Claim C8. Decoding should store a value part made of digits as one integer and split every
  other value part at the commas into trimmed strings. The value part of the line
  \<open>A = \<onehalf>\<close> (the one character U+00BD) is accepted by \<open>isnumeric\<close>, so \<open>int()\<close> is called on
  it and raises: the line is not decoded at all.
\<close>

theorem parse_line_vulgar_fraction_raises:
  "parse_line [CHR ''A'', CHR '' '', CHR ''='', CHR '' '', CHR 0xBD] = Inl ValueError"
  by code_simp

section \<open>Adding a peer with a leading comment that is no comment\<close>

text \<open>
  Claim C4. \<open>add_peer\<close> with a leading comment that does not start with the comment marker
  should fail and leave the line buffer unchanged. On a new object, whose buffer is the one
  line \<open>[Interface]\<close>, the call raises \<open>ValueError\<close>, and the buffer has then a second,
  empty line: the separator line is appended before the comment is checked.
\<close>

theorem add_peer_bad_comment_appends_line:
  "add_peer (Some (S ''K'')) (Some ''no marker'') (wgconfig_init ''PublicKey'') =
     (Inl ValueError,
      \<lparr>keyattr = ''PublicKey'', lines = [''[Interface]'', []],
       priv_interface = Some [(''_index_firstline'', Scalar (I 0)),
                              (''_index_lastline'', Scalar (I 0)),
                              (''_rawdata'', ListV [S ''[Interface]'']),
                              (''_disabled'', BoolV False)],
       priv_peers = Some []\<rparr>)"
  by code_simp

section \<open>Unsupported section headers\<close>




section \<open>Peer sections without the key attribute\<close>

text \<open>
  Claim C9, as stated: the record of a Peer section without key attribute is stored under the
  null key and no lookup by key ever matches it. The lookups take any key, and the null key
  \<open>None\<close> matches that record: \<open>get_peer(None)\<close> returns it, \<open>get_peer_enabled(None)\<close> answers
  for it, \<open>del_peer(None)\<close> deletes its lines.
\<close>

theorem keyless_peer_found_by_null_key:
  "fst (get_peer None False (cfg [''[Interface]'', [], ''[Peer]'', ''AllowedIPs = 10.0.0.2/32'']))
     = Inr [(''AllowedIPs'', Scalar (S ''10.0.0.2/32''))]
   \<and> fst (get_peer_enabled None (cfg [''[Interface]'', [], ''[Peer]'', ''AllowedIPs = 10.0.0.2/32'']))
     = Inr True
   \<and> lines (snd (del_peer None (cfg [''[Interface]'', [], ''[Peer]'', ''AllowedIPs = 10.0.0.2/32'']))) =
       [''[Interface]'']"
  by code_simp

text \<open>
  Claim C9, amended. Let the buffer hold a Peer section without the key attribute (its header,
  then lines none of which sets the key attribute, then the end of the buffer or the next
  header), let the name of the key attribute be none of the four names that the parse pass
  stores itself, and let the parse pass succeed. Then the peer map holds a record under the
  key \<open>None\<close>; that record has no key attribute and its bounds are indices of the buffer. A
  lookup with the key \<open>None\<close> matches that record: \<open>get_peer\<close> returns it, \<open>get_peer_enabled\<close>
  answers for its first line, \<open>del_peer\<close> removes its lines (and the blank line before them),
  \<open>enable_peer\<close> and \<open>disable_peer\<close> rewrite its lines. No lookup with a key other than \<open>None\<close>
  matches it: \<open>get_peer\<close>, \<open>get_peer_enabled\<close>, \<open>del_peer\<close>, \<open>enable_peer\<close> and \<open>disable_peer\<close>
  with such a key return the same result and leave the same line buffer whether the record
  under \<open>None\<close> is in the peer map or not.
\<close>

theorem keyless_peer_stored_not_matched:
  assumes L: "lines s = pre @ hdr # body @ rest"
    and K: "keyless_peer (keyattr s) hdr body rest"
    and N: "plain_key (keyattr s)"
    and P: "parse_lines s = (Inr u, s')"
  shows "\<exists>ps d fi li.
           priv_peers s' = Some ps \<and> map_of ps None = Some d \<and> map_of d (keyattr s) = None
         \<and> map_of d SECTION_FIRSTLINE = Some (Scalar (I fi))
         \<and> map_of d SECTION_LASTLINE = Some (Scalar (I li))
         \<and> 0 \<le> fi \<and> fi \<le> li \<and> li < int (length (lines s))
         \<and> get_peer None details s' = (Inr (get_filtered_dictionary d details), s')
         \<and> get_peer_enabled None s' = (Inr (\<not> startswith (lines s ! nat fi) marker), s')
         \<and> del_peer None s'
             = (Inr (), invalidate_data
                  (s'\<lparr>lines := take (nat (if 0 < fi \<and> lines s ! nat (fi - 1) = [] then fi - 1 else fi))
                                  (lines s)
                                @ drop (nat li + 1) (lines s)\<rparr>))
         \<and> enable_peer None s'
             = (Inr (), invalidate_data (s'\<lparr>lines := toggled replace_marker fi li (lines s)\<rparr>))
         \<and> disable_peer None s'
             = (if startswith (lines s ! nat fi) marker then (Inr (), s')
                else (Inr (), invalidate_data (s'\<lparr>lines := toggled ((@) marker) fi li (lines s)\<rparr>)))
         \<and> fst (get_peer (Some a) details s')
             = fst (get_peer (Some a) details (s'\<lparr>priv_peers := Some (AList.delete None ps)\<rparr>))
         \<and> fst (get_peer_enabled (Some a) s')
             = fst (get_peer_enabled (Some a) (s'\<lparr>priv_peers := Some (AList.delete None ps)\<rparr>))
         \<and> fst (del_peer (Some a) s')
             = fst (del_peer (Some a) (s'\<lparr>priv_peers := Some (AList.delete None ps)\<rparr>))
         \<and> lines (snd (del_peer (Some a) s'))
             = lines (snd (del_peer (Some a) (s'\<lparr>priv_peers := Some (AList.delete None ps)\<rparr>)))
         \<and> fst (enable_peer (Some a) s')
             = fst (enable_peer (Some a) (s'\<lparr>priv_peers := Some (AList.delete None ps)\<rparr>))
         \<and> lines (snd (enable_peer (Some a) s'))
             = lines (snd (enable_peer (Some a) (s'\<lparr>priv_peers := Some (AList.delete None ps)\<rparr>)))
         \<and> fst (disable_peer (Some a) s')
             = fst (disable_peer (Some a) (s'\<lparr>priv_peers := Some (AList.delete None ps)\<rparr>))
         \<and> lines (snd (disable_peer (Some a) s'))
             = lines (snd (disable_peer (Some a) (s'\<lparr>priv_peers := Some (AList.delete None ps)\<rparr>)))"
proof -
  from N have k: "keyattr s \<noteq> SECTION_FIRSTLINE" "keyattr s \<noteq> SECTION_LASTLINE"
    and k': "keyattr s \<noteq> SECTION_RAW" "keyattr s \<noteq> SECTION_DISABLED"
    by (simp_all add: plain_key_def)
  from keyless_stored [OF L K k P] obtain ps d
    where ps: "priv_peers s' = Some ps" and d: "map_of ps None = Some d"
    by (auto simp: has_none_def)
  from parse_lines_frame [OF P] have fr: "lines s' = lines s" "keyattr s' = keyattr s" by simp_all
  from parse_lines_none_keyless [OF k'] P ps d fr have nk: "map_of d (keyattr s) = None"
    by (simp add: none_keyless_def)
  from parse_lines_good [OF P] ps d have "good_section (lines s') d"
    by (auto simp: cache_good_def)
  with fr obtain fi li where F: "map_of d SECTION_FIRSTLINE = Some (Scalar (I fi))"
    and La: "map_of d SECTION_LASTLINE = Some (Scalar (I li))"
    and b: "0 \<le> fi" "fi \<le> li" "li < int (length (lines s))"
    and D: "map_of d SECTION_DISABLED = Some (BoolV (startswith (lines s ! nat fi) marker))"
    by (auto simp: good_section_def)
  from b fr have b': "li < int (length (lines s'))" by simp
  note 1 = get_peer_found [OF ps d, of details]
  note 2 = get_peer_enabled_found [OF ps d D]
  note 3 = del_peer_found [OF ps d F La b(1,2) b', unfolded fr]
  note 4 = enable_peer_found [OF ps d F La, unfolded fr]
  note 5 = disable_peer_found [OF ps d F La D, unfolded fr]
  note 6 = lookup_ignores_none [OF ps, of a details]
  from ps d nk F La b 1 2 3 4 5 6 show ?thesis by blast
qed

theorem keyless_peer_stored_not_matched_witness:
  "lines keyless_file = [''[Interface]'', []] @ ''[Peer]'' # [''AllowedIPs = 10.0.0.2/32'', []]
                         @ [''[Peer]'', ''PublicKey = K'']
   \<and> keyless_peer (keyattr keyless_file) ''[Peer]'' [''AllowedIPs = 10.0.0.2/32'', []]
        [''[Peer]'', ''PublicKey = K'']
   \<and> plain_key (keyattr keyless_file)
   \<and> fst (parse_lines keyless_file) = Inr ()
   \<and> (\<exists>d. map_of (the (priv_peers (snd (parse_lines keyless_file)))) None = Some d
          \<and> map_of d (keyattr keyless_file) = None
          \<and> fst (get_peer None False (snd (parse_lines keyless_file)))
              = Inr (get_filtered_dictionary d False))
   \<and> fst (get_peer_enabled None (snd (parse_lines keyless_file))) = Inr True
   \<and> lines (snd (del_peer None (snd (parse_lines keyless_file))))
       = [''[Interface]'', [], ''[Peer]'', ''PublicKey = K'']
   \<and> lines (snd (disable_peer None (snd (parse_lines keyless_file))))
       = [''[Interface]'', [], ''#! [Peer]'', ''#! AllowedIPs = 10.0.0.2/32'', [],
          ''[Peer]'', ''PublicKey = K'']"
proof -
  let ?s' = "snd (parse_lines keyless_file)"
  have l: "lines keyless_file = [''[Interface]'', []] @ ''[Peer]'' # [''AllowedIPs = 10.0.0.2/32'', []]
                         @ [''[Peer]'', ''PublicKey = K'']"
    by code_simp
  have k: "keyless_peer (keyattr keyless_file) ''[Peer]'' [''AllowedIPs = 10.0.0.2/32'', []]
        [''[Peer]'', ''PublicKey = K'']"
    by code_simp
  have n: "plain_key (keyattr keyless_file)" by code_simp
  have p': "fst (parse_lines keyless_file) = Inr ()" by code_simp
  then have p: "parse_lines keyless_file = (Inr (), ?s')"
    by (cases "parse_lines keyless_file") simp
  have e: "fst (get_peer_enabled None ?s') = Inr True" by code_simp
  have d: "lines (snd (del_peer None ?s')) = [''[Interface]'', [], ''[Peer]'', ''PublicKey = K'']"
    by code_simp
  have x: "lines (snd (disable_peer None ?s'))
       = [''[Interface]'', [], ''#! [Peer]'', ''#! AllowedIPs = 10.0.0.2/32'', [],
          ''[Peer]'', ''PublicKey = K'']"
    by code_simp
  from keyless_peer_stored_not_matched [OF l k n p, of False "S ''K''"]
  obtain ps d where "priv_peers ?s' = Some ps" "map_of ps None = Some d"
    "map_of d (keyattr keyless_file) = None"
    "get_peer None False ?s' = (Inr (get_filtered_dictionary d False), ?s')"
    by blast
  then have "\<exists>d. map_of (the (priv_peers ?s')) None = Some d
          \<and> map_of d (keyattr keyless_file) = None
          \<and> fst (get_peer None False ?s') = Inr (get_filtered_dictionary d False)"
    by auto
  with l k n p' e d x show ?thesis by blast
qed

section \<open>Invalidation of the derived records\<close>




section \<open>Parsing and writing back\<close>

text \<open>
  Claim C1, as stated: for a text whose sections are well-formed, parsing and then writing,
  with no mutation in between, reproduces the exact original text. The text \<open>[Interface]\<close>
  without a newline at its end is well-formed and parses, and it is written with a newline
  at its end.
\<close>

theorem parse_write_changes_text:
  "fst (parse_lines (read_from_fileobj ''[Interface]'' (wgconfig_init ''PublicKey''))) = Inr ()
   \<and> write_to_fileobj (snd (parse_lines (read_from_fileobj ''[Interface]'' (wgconfig_init ''PublicKey''))))
       \<noteq> ''[Interface]''"
  by code_simp

text \<open>
  Claim C1, amended. For every text, parsing and then writing, with no mutation in between,
  writes the lines of the text with the whitespace at the end of each line removed and a
  newline after each line. The text written is the text read exactly when every line of the
  text read ends with a newline and has no whitespace before it; the text written always has
  that form, so that reading, parsing and writing it again reproduces it exactly:
  \<open>write(parse(write(parse(text)))) = write(parse(text))\<close>, and on the same object the second parse
  pass has the outcome of the first.
\<close>

theorem parse_write_text:
  "(write_to_fileobj (snd (parse_lines (read_from_fileobj fobj s))) = fobj) = normal_text fobj
   \<and> write_to_fileobj (snd (parse_lines (read_from_fileobj fobj s)))
       = concat (map (\<lambda>l. rstrip l @ [CHR 0x0A]) (readlines fobj))
   \<and> normal_text (write_to_fileobj (snd (parse_lines (read_from_fileobj fobj s))))
   \<and> write_to_fileobj
        (snd (parse_lines
           (read_from_fileobj (write_to_fileobj (snd (parse_lines (read_from_fileobj fobj s)))) s')))
       = write_to_fileobj (snd (parse_lines (read_from_fileobj fobj s)))
   \<and> parse_lines
        (read_from_fileobj (write_to_fileobj (snd (parse_lines (read_from_fileobj fobj s))))
           (snd (parse_lines (read_from_fileobj fobj s))))
       = parse_lines (read_from_fileobj fobj s)"
proof -
  let ?s0 = "read_from_fileobj fobj s"
  let ?s1 = "snd (parse_lines ?s0)"
  have l1: "lines ?s1 = lines ?s0" by (rule parse_lines_lines)
  then have w: "write_to_fileobj ?s1 = write_to_fileobj ?s0" by (rule write_to_fileobj_lines)
  from l1 read_lines_clean [of fobj s] have clean: "\<forall>l \<in> set (lines ?s1). clean_line l"
    by simp
  have n: "normal_text (write_to_fileobj ?s1)" by (rule write_clean_normal [OF clean])
  have a: "(write_to_fileobj ?s1 = fobj) = normal_text fobj"
  proof
    assume "write_to_fileobj ?s1 = fobj"
    with n show "normal_text fobj" by simp
  next
    assume "normal_text fobj"
    from write_read_normal [OF this, of s] w show "write_to_fileobj ?s1 = fobj" by simp
  qed
  have b: "write_to_fileobj ?s1 = concat (map (\<lambda>l. rstrip l @ [CHR 0x0A]) (readlines fobj))"
    using w by (simp add: written_text)
  have "lines (snd (parse_lines (read_from_fileobj (write_to_fileobj ?s1) s'))) = lines ?s1"
    using reread_clean [OF clean, of s'] by (simp add: parse_lines_lines)
  then have c: "write_to_fileobj (snd (parse_lines (read_from_fileobj (write_to_fileobj ?s1) s')))
      = write_to_fileobj ?s1"
    by (rule write_to_fileobj_lines)
  have p: "parse_lines ?s0 = (fst (parse_lines ?s0), ?s1)" by simp
  have "parse_lines (read_from_fileobj (write_to_fileobj ?s1) ?s1) = parse_lines ?s1"
    by (simp add: reread_same_object [OF clean] parse_lines_invalidate)
  also have "\<dots> = parse_lines ?s0"
    using parse_lines_idem [OF p] by simp
  finally have d: "parse_lines (read_from_fileobj (write_to_fileobj ?s1) ?s1) = parse_lines ?s0" .
  from a b n c d show ?thesis by blast
qed

section \<open>Adding an attribute\<close>

text \<open>
  Claim C7, as stated: \<open>add_attr\<close> scans the lines of the section for a line whose decoded name
  is the attribute and rewrites it. The scan starts after the first line of the section. In
  the file below the section of peer \<open>K\<close> starts at the line \<open>A = 1\<close> (index 2, the line after
  the blank line), and \<open>add_attr('K', 'A', '2')\<close> does not find that line: it inserts a new
  line after the last line of the section.
\<close>

theorem add_attr_skips_first_line:
  "fst (get_sectioninfo (Some (S ''K'')) (cfg [''[Interface]'', [], ''A = 1'', ''[Peer]'', ''PublicKey = K'']))
     = Inr (Scalar (I 2), Scalar (I 4))
   \<and> lines (snd (add_attr (Some (S ''K'')) ''A'' (S ''2'') None False
                     (cfg [''[Interface]'', [], ''A = 1'', ''[Peer]'', ''PublicKey = K''])))
     = [''[Interface]'', [], ''A = 1'', ''[Peer]'', ''PublicKey = K'', ''A = 2'']"
  by code_simp

text \<open>
  Claim C7, amended. Take an object whose derived records are unbuilt or agree with the line
  buffer, and an existing target section with bounds \<open>fi\<close> and \<open>li\<close>. \<open>add_attr\<close> first checks
  the leading comment: one that is given and does not start with \<open>#\<close> makes the call raise,
  with the line buffer unchanged. Then it scans the lines after the first line of the
  section, up to the last, and decodes each: a line that does not decode (its value part is
  numeric but not decimal) makes the call raise \<open>ValueError\<close>, with the line buffer unchanged.
  Otherwise the call returns normally and its line buffer is the one of \<open>add_attr_spec\<close>: it
  takes the last scanned line whose decoded name is the attribute; if there is one and
  \<open>append_as_line\<close> is false, that line is rewritten, the value appended to its decoded values
  and the line encoded again with its trailing comment; otherwise a new line \<open>attr = value\<close>
  is inserted directly after that line, or after the last line of the section when no line
  matched. A leading comment goes directly before the new or rewritten line.
\<close>

theorem add_attr_effect:
  assumes v: "cache_valid s"
    and g: "get_sectioninfo key s = (Inr (Scalar (I fi), Scalar (I li)), s1)"
  shows "lines s1 = lines s
       \<and> (\<forall>e. check_comment lc = Inl e \<longrightarrow> add_attr key attr v' lc app s = (Inl e, s1))
       \<and> (check_comment lc = Inr () \<longrightarrow> (\<exists>j. fi < j \<and> j \<le> li \<and> attr_at (lines s) j = None) \<longrightarrow>
            add_attr key attr v' lc app s = (Inl ValueError, s1))
       \<and> (check_comment lc = Inr () \<longrightarrow> (\<forall>j. fi < j \<and> j \<le> li \<longrightarrow> attr_at (lines s) j \<noteq> None) \<longrightarrow>
            (\<exists>s'. add_attr key attr v' lc app s = (Inr (), s')
                 \<and> lines s' = add_attr_spec (lines s) fi li attr v' lc app))"
proof -
  from get_sectioninfo_good [OF v g]
  have b: "0 \<le> fi" "fi \<le> li" "li < int (length (lines s))" and l1: "lines s1 = lines s"
    by simp_all
  have 1: "\<forall>e. check_comment lc = Inl e \<longrightarrow> add_attr key attr v' lc app s = (Inl e, s1)"
    using g by (simp add: add_attr_def)
  have 2: "check_comment lc = Inr () \<longrightarrow> (\<exists>j. fi < j \<and> j \<le> li \<and> attr_at (lines s) j = None) \<longrightarrow>
            add_attr key attr v' lc app s = (Inl ValueError, s1)"
  proof (intro impI)
    assume c: "check_comment lc = Inr ()"
    assume "\<exists>j. fi < j \<and> j \<le> li \<and> attr_at (lines s) j = None"
    then have ex: "\<exists>j \<in> set [fi + 1..li]. attr_at (lines s) j = None" by auto
    have rng: "\<forall>j \<in> set [fi + 1..li]. 0 \<le> j \<and> j < int (length (lines s))"
      using b by auto
    from find_attr_fails [OF rng ex, of attr None] g c l1
    show "add_attr key attr v' lc app s = (Inl ValueError, s1)"
      by (simp add: add_attr_def)
  qed
  have 3: "check_comment lc = Inr () \<longrightarrow> (\<forall>j. fi < j \<and> j \<le> li \<longrightarrow> attr_at (lines s) j \<noteq> None) \<longrightarrow>
            (\<exists>s'. add_attr key attr v' lc app s = (Inr (), s')
                 \<and> lines s' = add_attr_spec (lines s) fi li attr v' lc app)"
    using add_attr_decodable [OF v g] by blast
  from l1 1 2 3 show ?thesis by blast
qed

theorem add_attr_effect_witness:
  "cache_valid peer_cfg
   \<and> get_sectioninfo (Some (S ''K'')) peer_cfg
       = (Inr (Scalar (I 3), Scalar (I 5)), snd (get_sectioninfo (Some (S ''K'')) peer_cfg))
   \<and> check_comment None = Inr ()
   \<and> attr_at (lines peer_cfg) 4 \<noteq> None \<and> attr_at (lines peer_cfg) 5 \<noteq> None
   \<and> fst (add_attr (Some (S ''K'')) ''AllowedIPs'' (S ''10.0.0.3/32'') None False peer_cfg) = Inr ()
   \<and> lines (snd (add_attr (Some (S ''K'')) ''AllowedIPs'' (S ''10.0.0.3/32'') None False peer_cfg))
       = [''[Interface]'', ''PrivateKey = AAA='', [], ''[Peer]'', ''PublicKey = K'',
          ''AllowedIPs = 10.0.0.2/32, 10.0.0.3/32'']
   \<and> check_comment (Some ''no marker'') = Inl ValueError
   \<and> add_attr (Some (S ''K'')) ''AllowedIPs'' (S ''10.0.0.3/32'') (Some ''no marker'') False peer_cfg
       = (Inl ValueError, snd (get_sectioninfo (Some (S ''K'')) peer_cfg))
   \<and> cache_valid undecodable_cfg
   \<and> get_sectioninfo None undecodable_cfg
       = (Inr (Scalar (I 0), Scalar (I 2)), snd (get_sectioninfo None undecodable_cfg))
   \<and> attr_at (lines undecodable_cfg) 1 = None
   \<and> add_attr None ''A'' (S ''2'') None False undecodable_cfg
       = (Inl ValueError, snd (get_sectioninfo None undecodable_cfg))"
proof -
  have vu: "cache_valid undecodable_cfg" by code_simp
  have gu: "get_sectioninfo None undecodable_cfg
       = (Inr (Scalar (I 0), Scalar (I 2)), snd (get_sectioninfo None undecodable_cfg))"
    by code_simp
  have du: "attr_at (lines undecodable_cfg) 1 = None" by code_simp
  then have eu: "\<exists>j. (0::int) < j \<and> j \<le> 2 \<and> attr_at (lines undecodable_cfg) j = None"
    by (intro exI [of _ 1]) simp
  note tu = add_attr_effect [OF vu gu, of None "''A''" "S ''2''" False]
  have v: "cache_valid peer_cfg" by code_simp
  have g: "get_sectioninfo (Some (S ''K'')) peer_cfg
       = (Inr (Scalar (I 3), Scalar (I 5)), snd (get_sectioninfo (Some (S ''K'')) peer_cfg))"
    by code_simp
  have c: "check_comment None = Inr ()" by code_simp
  have cb: "check_comment (Some ''no marker'') = Inl ValueError" by code_simp
  have d4: "attr_at (lines peer_cfg) 4 \<noteq> None" by code_simp
  have d5: "attr_at (lines peer_cfg) 5 \<noteq> None" by code_simp
  have d: "\<forall>j. 3 < j \<and> j \<le> 5 \<longrightarrow> attr_at (lines peer_cfg) j \<noteq> None"
  proof (intro allI impI)
    fix j :: int
    assume "3 < j \<and> j \<le> 5"
    then have "j = 4 \<or> j = 5" by arith
    with d4 d5 show "attr_at (lines peer_cfg) j \<noteq> None" by auto
  qed
  note t = add_attr_effect [OF v g, of None "''AllowedIPs''" "S ''10.0.0.3/32''" False]
  note tb = add_attr_effect [OF v g, of "Some ''no marker''" "''AllowedIPs''" "S ''10.0.0.3/32''" False]
  from t c d
  obtain s' where r: "add_attr (Some (S ''K'')) ''AllowedIPs'' (S ''10.0.0.3/32'') None False peer_cfg = (Inr (), s')"
    and l: "lines s' = add_attr_spec (lines peer_cfg) 3 5 ''AllowedIPs'' (S ''10.0.0.3/32'') None False"
    by blast
  have e: "add_attr_spec (lines peer_cfg) 3 5 ''AllowedIPs'' (S ''10.0.0.3/32'') None False
       = [''[Interface]'', ''PrivateKey = AAA='', [], ''[Peer]'', ''PublicKey = K'',
          ''AllowedIPs = 10.0.0.2/32, 10.0.0.3/32'']"
    by code_simp
  from r l e have ok: "fst (add_attr (Some (S ''K'')) ''AllowedIPs'' (S ''10.0.0.3/32'') None False peer_cfg) = Inr ()"
    "lines (snd (add_attr (Some (S ''K'')) ''AllowedIPs'' (S ''10.0.0.3/32'') None False peer_cfg))
       = [''[Interface]'', ''PrivateKey = AAA='', [], ''[Peer]'', ''PublicKey = K'',
          ''AllowedIPs = 10.0.0.2/32, 10.0.0.3/32'']"
    by simp_all
  from tb cb have bad: "add_attr (Some (S ''K'')) ''AllowedIPs'' (S ''10.0.0.3/32'') (Some ''no marker'') False peer_cfg
       = (Inl ValueError, snd (get_sectioninfo (Some (S ''K'')) peer_cfg))"
    by blast
  from tu c eu have und: "add_attr None ''A'' (S ''2'') None False undecodable_cfg
       = (Inl ValueError, snd (get_sectioninfo None undecodable_cfg))"
    by blast
  from v g c cb d4 d5 ok bad vu gu du und show ?thesis by blast
qed

section \<open>Deleting an attribute with its leading comments\<close>

text \<open>
  Claim C10, as stated: \<open>del_attr\<close> with \<open>remove_leading_comments\<close> deletes the contiguous run of
  comment-only lines directly above the first matched line. The scan looks at the first
  character of the stored line, not at the line as the parse pass sees it: the indented line
  \<open>  # note\<close> is a comment for the parse pass, it stands directly above the matched line, and it
  is not deleted.
\<close>

theorem del_attr_keeps_indented_comment:
  "startswith (view ''  # note'') ''#''
   \<and> fst (del_attr None ''B'' None True indented_cfg) = Inr ()
   \<and> lines (snd (del_attr None ''B'' None True indented_cfg)) = [''[Interface]'', ''A = 1'', ''  # note'']"
  by code_simp

text \<open>
  Claim C10, amended. On an object whose derived records are unbuilt or agree with the line
  buffer, a call of \<open>del_attr\<close> with \<open>remove_leading_comments\<close> that returns normally does what the
  call without it does, which returns normally too and leaves the lines above the first
  matched line as they are, and it deletes in addition the contiguous run of lines directly
  above the first matched line that are not empty and have \<open>#\<close> as their first character. The
  run is counted upwards from the line above the first matched line and never reaches index
  0: the first line of the buffer is never removed, also when it is such a line directly
  above the first matched line.
\<close>

theorem del_attr_leading_comments:
  assumes v: "cache_valid s" and T: "del_attr key attr v' True s = (Inr u, sT)"
  shows "\<exists>fi li s1 sF m.
           get_sectioninfo key s = (Inr (Scalar (I fi), Scalar (I li)), s1)
         \<and> del_attr key attr v' False s = (Inr (), sF)
         \<and> first_match (lines s) attr v' fi li = Some m \<and> fi < m \<and> m \<le> li
         \<and> take (nat m) (lines sF) = take (nat m) (lines s)
         \<and> sT = sF\<lparr>lines := take (nat m - comment_run (lines s) (nat m)) (lines s)
                              @ drop (nat m) (lines sF)\<rparr>
         \<and> comment_run (lines s) (nat m) < nat m
         \<and> lines sT \<noteq> [] \<and> hd (lines sT) = hd (lines s)"
proof -
  from T obtain f l s1 where g: "get_sectioninfo key s = (Inr (f, l), s1)"
    by (auto simp: del_attr_def split: prod.splits sum.splits)
  from get_sectioninfo_good [OF v g] obtain fi li
    where fl: "f = Scalar (I fi)" "l = Scalar (I li)"
      and b: "0 \<le> fi" "fi \<le> li" "li < int (length (lines s))" and l1: "lines s1 = lines s"
    by auto
  let ?ls = "lines s"
  note un = del_attr_unfold [OF g [unfolded fl], unfolded l1]
  obtain rf where rf: "find_all ?ls attr v' [fi + 1..li] [] = rf" by simp
  from T un [of attr v' True] rf obtain lf where fa: "find_all ?ls attr v' [fi + 1..li] [] = Inr lf"
    by (cases rf) auto
  from T un [of attr v' True] fa have ne: "lf \<noteq> []" by auto
  obtain rp ls' where dp0: "del_process v' (rev lf) ?ls = (rp, ls')"
    by (cases "del_process v' (rev lf) ?ls")
  from T un [of attr v' True] fa ne dp0 have dp: "del_process v' (rev lf) ?ls = (Inr (), ls')"
    by (cases rp) auto
  obtain rc ls'' where cs0: "comment_scan (hd lf - 1) ls' = (rc, ls'')"
    by (cases "comment_scan (hd lf - 1) ls'")
  from T un [of attr v' True] fa ne dp cs0
  have cs: "comment_scan (hd lf - 1) ls' = (Inr (), ls'')"
    and sT: "sT = invalidate_data (s1\<lparr>lines := ls''\<rparr>)"
    by (cases rc; simp)+
  have rng: "\<forall>j \<in> set [fi + 1..li]. 0 \<le> j \<and> j < int (length ?ls)"
    using b by auto
  from find_all_spec [OF fa rng] have lf: "lf = filter (value_match ?ls attr v') [fi + 1..li]"
    by simp
  from ne obtain m ms where mm: "lf = m # ms" by (cases lf) auto
  from lf mm have fm: "filter (value_match ?ls attr v') [fi + 1..li] = m # ms" by simp
  from filter_upto_least [OF fm] have least: "\<forall>x \<in> set (rev lf). m \<le> x"
    and m: "fi + 1 \<le> m" "m \<le> li"
    using mm by auto
  from fm have first: "first_match ?ls attr v' fi li = Some m"
    by (simp add: first_match_def)
  from m b have m0: "0 \<le> m" "0 < m" and ml: "nat m \<le> length ?ls" by auto
  from del_process_frame [OF least m0(1) ml dp]
  have tk: "take (nat m) ls' = take (nat m) ?ls" and len: "nat m \<le> length ls'" by simp_all
  from len m0 have "m - 1 < int (length ls')" by auto
  from comment_scan_effect [OF this] m0
  have "comment_scan (m - 1) ls'
          = (Inr (), take (nat m - comment_run ls' (nat m)) ls' @ drop (nat m) ls')"
    by simp
  with cs mm have ls'': "ls'' = take (nat m - comment_run ls' (nat m)) ls' @ drop (nat m) ls'"
    by simp
  from comment_run_take [OF tk] have cr: "comment_run ls' (nat m) = comment_run ?ls (nat m)" .
  let ?r = "comment_run ?ls (nat m)"
  have "take (nat m - ?r) ls' = take (nat m - ?r) (take (nat m) ls')"
    by (simp add: min_def)
  also have "\<dots> = take (nat m - ?r) ?ls"
    by (simp add: tk min_def)
  finally have tk2: "take (nat m - ?r) ls' = take (nat m - ?r) ?ls" .
  let ?sF = "invalidate_data (s1\<lparr>lines := ls'\<rparr>)"
  from un [of attr v' False] fa ne dp have F: "del_attr key attr v' False s = (Inr (), ?sF)"
    by simp
  have lsF: "lines ?sF = ls'" by (simp add: invalidate_data_def)
  from sT ls'' cr tk2
  have eq: "sT = ?sF\<lparr>lines := take (nat m - ?r) ?ls @ drop (nat m) (lines ?sF)\<rparr>"
    by (simp add: invalidate_data_def)
  from comment_run_le [of ?ls "nat m"] m0 have r: "?r < nat m" by auto
  from ml m0 have nonempty: "?ls \<noteq> []" by auto
  from r have pos: "0 < nat m - ?r" by simp
  from eq have lT: "lines sT = take (nat m - ?r) ?ls @ drop (nat m) ls'"
    by (simp add: invalidate_data_def)
  from nonempty pos have tne: "take (nat m - ?r) ?ls \<noteq> []" by simp
  from nonempty pos have "hd (take (nat m - ?r) ?ls) = hd ?ls"
    by (cases ?ls; cases "nat m - ?r") simp_all
  with lT tne have hdT: "lines sT \<noteq> []" "hd (lines sT) = hd ?ls" by simp_all
  from tk lsF have tkF: "take (nat m) (lines ?sF) = take (nat m) ?ls" by simp
  from g fl F first m tkF eq r hdT show ?thesis
    by (intro exI [of _ fi] exI [of _ li] exI [of _ s1] exI [of _ ?sF] exI [of _ m]) simp
qed

theorem del_attr_leading_comments_witness:
  "cache_valid top_comment_cfg
   \<and> fst (del_attr None ''A'' None True top_comment_cfg) = Inr ()
   \<and> is_comment_line (hd (lines top_comment_cfg))
   \<and> first_match (lines top_comment_cfg) ''A'' None 0 2 = Some 1
   \<and> lines (snd (del_attr None ''A'' None True top_comment_cfg)) \<noteq> []
   \<and> hd (lines (snd (del_attr None ''A'' None True top_comment_cfg))) = hd (lines top_comment_cfg)
   \<and> lines (snd (del_attr None ''A'' None True top_comment_cfg)) = [''# a'', ''[Interface]'']"
proof -
  let ?sT = "snd (del_attr None ''A'' None True top_comment_cfg)"
  have v: "cache_valid top_comment_cfg" by code_simp
  have f: "fst (del_attr None ''A'' None True top_comment_cfg) = Inr ()" by code_simp
  then have T: "del_attr None ''A'' None True top_comment_cfg = (Inr (), ?sT)"
    by (cases "del_attr None ''A'' None True top_comment_cfg") simp
  have c: "is_comment_line (hd (lines top_comment_cfg))" by code_simp
  have m: "first_match (lines top_comment_cfg) ''A'' None 0 2 = Some 1" by code_simp
  have l: "lines ?sT = [''# a'', ''[Interface]'']" by code_simp
  from del_attr_leading_comments [OF v T]
  have "lines ?sT \<noteq> [] \<and> hd (lines ?sT) = hd (lines top_comment_cfg)" by blast
  with v f c m l show ?thesis by blast
qed

section \<open>Disabling a peer twice\<close>




section \<open>Disabling and enabling a peer\<close>

text \<open>
  Claim C5, as stated: for every enabled peer, \<open>disable_peer\<close> and then \<open>enable_peer\<close> restore the
  lines of the section byte for byte. \<open>enable_peer\<close> removes every occurrence of the marker
  from the lines of the section: a line of an enabled peer that carries the marker loses it.
\<close>

theorem disable_enable_removes_marker:
  "fst (get_peer_enabled (Some (S ''K'')) marked_cfg) = Inr True
   \<and> lines marked_cfg
       = [''[Interface]'', [], ''[Peer]'', ''PublicKey = K'', ''#! AllowedIPs = 10.0.0.2/32'']
   \<and> fst (disable_peer (Some (S ''K'')) marked_cfg) = Inr ()
   \<and> fst (enable_peer (Some (S ''K'')) (snd (disable_peer (Some (S ''K'')) marked_cfg))) = Inr ()
   \<and> lines (snd (enable_peer (Some (S ''K'')) (snd (disable_peer (Some (S ''K'')) marked_cfg))))
       = [''[Interface]'', [], ''[Peer]'', ''PublicKey = K'', ''AllowedIPs = 10.0.0.2/32'']"
  by code_simp

text \<open>
  Claim C5, amended. On an object whose derived records are unbuilt or agree with the line
  buffer, and for every peer key for which \<open>get_peer_enabled\<close> answers \<open>True\<close>: \<open>disable_peer\<close>
  returns normally and puts the marker before every line from the first to the last line of
  the section of the peer; \<open>enable_peer\<close> then returns normally, and the line buffer is the one
  before the two calls with every occurrence of the marker removed from the lines of the
  section, the other lines unchanged. The line buffer is restored byte for byte exactly when
  no line of the section contains the marker.
\<close>

theorem disable_enable_restores:
  assumes v: "cache_valid s" and E: "get_peer_enabled key s = (Inr True, s0)"
  shows "\<exists>ps d fi li s1 s2.
           peers s = (Inr ps, s0) \<and> map_of ps key = Some d
         \<and> map_of d SECTION_FIRSTLINE = Some (Scalar (I fi))
         \<and> map_of d SECTION_LASTLINE = Some (Scalar (I li))
         \<and> 0 \<le> fi \<and> fi \<le> li \<and> li < int (length (lines s))
         \<and> disable_peer key s = (Inr (), s1)
         \<and> lines s1 = toggled ((@) marker) fi li (lines s)
         \<and> enable_peer key s1 = (Inr (), s2)
         \<and> lines s2 = toggled replace_marker fi li (lines s)
         \<and> (lines s2 = lines s) = (\<forall>j. fi \<le> j \<and> j \<le> li \<longrightarrow>
                                      \<not> sublist marker (lines s ! nat j))"
proof -
  from E obtain r where g: "get_peer key True s = (Inr r, s0)"
    by (auto simp: get_peer_enabled_def split: prod.splits sum.splits)
  from found_peer [OF v g] obtain ps d fi li
    where p: "peers s = (Inr ps, s0)" and P: "parse_lines s0 = (Inr (), s0)"
      and ps: "priv_peers s0 = Some ps" and l0: "lines s0 = lines s" and d: "map_of ps key = Some d"
      and F: "map_of d SECTION_FIRSTLINE = Some (Scalar (I fi))"
      and La: "map_of d SECTION_LASTLINE = Some (Scalar (I li))"
      and b: "0 \<le> fi" "fi \<le> li" "li < int (length (lines s))"
      and D: "map_of d SECTION_DISABLED = Some (BoolV (startswith (lines s ! nat fi) marker))"
    by blast
  from get_peer_enabled_after_peers [OF p, of key] get_peer_enabled_found [OF ps d D] E
  have en: "\<not> startswith (lines s ! nat fi) marker" by simp
  let ?L = "toggled ((@) marker) fi li (lines s0)"
  let ?s1 = "invalidate_data (s0\<lparr>lines := ?L\<rparr>)"
  from en disable_peer_found [OF ps d F La D] disable_peer_after_peers [OF p, of key]
  have 1: "disable_peer key s = (Inr (), ?s1)" by simp
  have l: "lines ?s1 = toggled ((@) marker) fi li (lines s)"
    by (simp add: invalidate_data_def l0)
  have vw: "map view ?L = map view (lines s0)" by (rule view_toggled_marker)
  from reparse_same_views [OF P ps d vw] obtain s1' ps1 d1
    where p1: "peers ?s1 = (Inr ps1, s1')" and ps1: "priv_peers s1' = Some ps1"
      and l1: "lines s1' = ?L" and d1: "map_of ps1 key = Some d1"
      and F1: "map_of d1 SECTION_FIRSTLINE = map_of d SECTION_FIRSTLINE"
      and La1: "map_of d1 SECTION_LASTLINE = map_of d SECTION_LASTLINE"
    by blast
  let ?s2 = "invalidate_data (s1'\<lparr>lines := toggled replace_marker fi li (lines s1')\<rparr>)"
  from enable_peer_found [OF ps1 d1 F1 [unfolded F] La1 [unfolded La]] enable_peer_after_peers [OF p1, of key]
  have 2: "enable_peer key ?s1 = (Inr (), ?s2)" by simp
  have c: "replace_marker \<circ> (@) marker = replace_marker"
    by (rule ext) (simp add: replace_marker_prefixed)
  have l2: "lines ?s2 = toggled replace_marker fi li (lines s)"
    by (simp add: invalidate_data_def l1 l0 toggled_twice c)
  from toggled_same [OF b(1) b(3), of replace_marker] l2
  have 3: "(lines ?s2 = lines s) = (\<forall>j. fi \<le> j \<and> j \<le> li \<longrightarrow>
                                      \<not> sublist marker (lines s ! nat j))"
    by (simp add: replace_marker_fixed)
  from p d F La b 1 l 2 l2 3 show ?thesis by blast
qed

theorem disable_enable_restores_witness:
  "cache_valid peer_cfg
   \<and> fst (get_peer_enabled (Some (S ''K'')) peer_cfg) = Inr True
   \<and> fst (disable_peer (Some (S ''K'')) peer_cfg) = Inr ()
   \<and> fst (enable_peer (Some (S ''K'')) (snd (disable_peer (Some (S ''K'')) peer_cfg))) = Inr ()
   \<and> \<not> sublist marker ''[Peer]'' \<and> \<not> sublist marker ''PublicKey = K''
   \<and> \<not> sublist marker ''AllowedIPs = 10.0.0.2/32''
   \<and> lines (snd (enable_peer (Some (S ''K'')) (snd (disable_peer (Some (S ''K'')) peer_cfg))))
       = lines peer_cfg"
proof -
  let ?k = "Some (S ''K'')"
  have v: "cache_valid peer_cfg" by code_simp
  have e': "fst (get_peer_enabled ?k peer_cfg) = Inr True" by code_simp
  then have e: "get_peer_enabled ?k peer_cfg = (Inr True, snd (get_peer_enabled ?k peer_cfg))"
    by (cases "get_peer_enabled ?k peer_cfg") simp
  have m: "\<not> sublist marker ''[Peer]''" "\<not> sublist marker ''PublicKey = K''"
    "\<not> sublist marker ''AllowedIPs = 10.0.0.2/32''"
    by code_simp+
  have r: "lines (snd (enable_peer ?k (snd (disable_peer ?k peer_cfg)))) = lines peer_cfg"
    by code_simp
  from disable_enable_restores [OF v e]
  obtain s1 s2 where "disable_peer ?k peer_cfg = (Inr (), s1)" "enable_peer ?k s1 = (Inr (), s2)"
    by blast
  then have "fst (disable_peer ?k peer_cfg) = Inr ()
     \<and> fst (enable_peer ?k (snd (disable_peer ?k peer_cfg))) = Inr ()"
    by simp
  with v e' m r show ?thesis by blast
qed

end
